theory Spec2Isabelle
  imports Main "HOL-Library.AList" "HOL-Library.Sublist"
begin


section \<open>Data model\<close>

text \<open>
  The script \<^verbatim>\<open>tableau_hyper_union.py\<close> unions all Hyper files of a directory.
  The columns it handles are the engine's \<^verbatim>\<open>TableDefinition.Column\<close> objects: a name,
  a type, a nullability and an optional collation. Names (\<^verbatim>\<open>Name\<close>,
  \<^verbatim>\<open>SchemaName\<close>, \<^verbatim>\<open>TableName\<close>) are modelled by their unescaped text; a table
  name is the name of the table inside the schema that lists it.
\<close>

datatype nullability = NULLABLE | NOT_NULLABLE

datatype sql_type =
    Sql_bool | Sql_big_int | Sql_small_int | Sql_int | Sql_numeric nat nat
  | Sql_double | Sql_oid | Sql_bytes | Sql_text | Sql_varchar nat | Sql_char nat
  | Sql_json | Sql_date | Sql_interval | Sql_time | Sql_timestamp
  | Sql_timestamp_tz | Sql_geography

record column =
  name :: string
  type :: sql_type
  nullability :: nullability
  collation :: "string option"

text \<open>
  What the engine answers for one Hyper file; every call may raise, which is \<open>None\<close>.
  \<^verbatim>\<open>get_table_definition(table)\<close> gives the columns of a table,
  \<^verbatim>\<open>get_table_names(schema)\<close> the tables of a schema, \<^verbatim>\<open>get_schema_names()\<close> the
  schemas. The directory maps a file name to what \<^verbatim>\<open>THA.Connection\<close> gives for it:
  \<open>None\<close> when the connection raises, \<open>Some None\<close> when the connection opens and
  \<^verbatim>\<open>get_schema_names()\<close> raises, the catalog otherwise. The files do not change
  during a run.
\<close>

type_synonym tables = "(string \<times> column list option) list"
type_synonym catalog = "(string \<times> tables option) list"
type_synonym directory = "string \<Rightarrow> catalog option option"

text \<open>
  \<^verbatim>\<open>output_dict\<close>: schema, then table, then the list of columns. Python dictionaries
  keep insertion order, so each level is an association list.
\<close>

type_synonym output_tables = "(string \<times> column list) list"
type_synonym output_dict = "(string \<times> output_tables) list"

datatype exception = IndexError | HyperException | ValueError

text \<open>
  The calls to the engine and the log records of the script, in the order they happen.
  \<open>Connect f\<close> is the evaluation of \<^verbatim>\<open>THA.Connection(..., database=f)\<close> (lines 68
  and 147). The other constructors are log records: line 69 (\<open>Processing\<close>), the
  warning of line 98 (\<open>Conflict\<close>: the scanned column, the existing column, the file),
  the error of line 102 (\<open>Read_problem\<close>), line 105 (\<open>Closed\<close>), lines 114 and 137
  (\<open>Create_schema\<close>, \<open>Create_table\<close> with the table definition handed to the engine),
  line 148 (\<open>Ingesting\<close>), the error of line 170 (\<open>Query_problem\<close>), the query handed
  to \<^verbatim>\<open>execute_list_query\<close> at line 175 (\<open>Execute\<close>), line 189 (\<open>Table_absent\<close>) and
  the error of line 192 (\<open>Assimilate_problem\<close>) for what raises up to line 175. The info
  and debug lines that only repeat a schema, table or column name are left out, and so
  are the records that follow the call of line 175, which depend on what the engine
  answers to the query.
\<close>

datatype event =
    Connect string
  | Processing string
  | Conflict column column string
  | Read_problem string
  | Closed string
  | Create_schema string
  | Create_table string string "column list"
  | Ingesting string
  | Query_problem string string
  | Execute string string
  | Table_absent string
  | Assimilate_problem string

section \<open>Scan phase (lines 66 to 105)\<close>

text \<open>
  \<^verbatim>\<open>if key not in d: d[key] = []\<close> followed by a read of \<^verbatim>\<open>d[key]\<close>: the value
  stored under the key, the empty container when the key is new.
\<close>

definition get_or_empty :: "('k \<times> 'v list) list \<Rightarrow> 'k \<Rightarrow> 'v list" where
  "get_or_empty d key = (case map_of d key of None \<Rightarrow> [] | Some v \<Rightarrow> v)"

text \<open>
  Lines 89 to 100, for one column of a source table; \<open>cols\<close> is
  \<^verbatim>\<open>output_dict[schema][table]\<close>. The index \<^verbatim>\<open>[0]\<close> of line 95 raises on an empty
  list.
\<close>

definition scan_column ::
  "string \<Rightarrow> column list \<Rightarrow> column \<Rightarrow> exception + (column list \<times> event list)" where
  "scan_column hyper_file cols column =
     (if name column \<notin> set (map name cols) then Inr (cols @ [column], [])
      else (case [column_output \<leftarrow> cols. name column_output = name column] of
              [] \<Rightarrow> Inl IndexError
            | matching_column_in_output_dict # _ \<Rightarrow>
                if type column \<noteq> type matching_column_in_output_dict
                   \<or> nullability column \<noteq> nullability matching_column_in_output_dict
                   \<or> collation column \<noteq> collation matching_column_in_output_dict
                then Inr (cols, [Conflict column matching_column_in_output_dict hyper_file])
                else Inr (cols, [])))"

text \<open>
  The loop of line 88. The list is changed in place, so what was appended before an
  exception stays.
\<close>

fun scan_columns ::
  "string \<Rightarrow> column list \<Rightarrow> column list \<Rightarrow> column list \<times> event list \<times> exception option" where
  "scan_columns hyper_file cols [] = (cols, [], None)"
| "scan_columns hyper_file cols (column # columns) =
     (case scan_column hyper_file cols column of
        Inl e \<Rightarrow> (cols, [], Some e)
      | Inr (cols', log) \<Rightarrow>
          (case scan_columns hyper_file cols' columns of
             (cols'', log', r) \<Rightarrow> (cols'', log @ log', r)))"

text \<open>
  The loop of line 79 over the tables of one schema; \<open>tabs\<close> is
  \<^verbatim>\<open>output_dict[schema]\<close>. The key of the table is created (line 83) before its
  definition is read (line 84).
\<close>

fun scan_tables ::
  "string \<Rightarrow> output_tables \<Rightarrow> tables \<Rightarrow> output_tables \<times> event list \<times> exception option" where
  "scan_tables hyper_file tabs [] = (tabs, [], None)"
| "scan_tables hyper_file tabs ((table, table_definition) # rest) =
     (case table_definition of
        None \<Rightarrow> (AList.update table (get_or_empty tabs table) tabs, [], Some HyperException)
      | Some columns \<Rightarrow>
          (case scan_columns hyper_file (get_or_empty tabs table) columns of
             (cols, log, Some e) \<Rightarrow> (AList.update table cols tabs, log, Some e)
           | (cols, log, None) \<Rightarrow>
               (case scan_tables hyper_file (AList.update table cols tabs) rest of
                  (tabs', log', r) \<Rightarrow> (tabs', log @ log', r))))"

text \<open>The loop of line 72 over the schemas of one file.\<close>

fun scan_schemas ::
  "string \<Rightarrow> output_dict \<Rightarrow> catalog \<Rightarrow> output_dict \<times> event list \<times> exception option" where
  "scan_schemas hyper_file od [] = (od, [], None)"
| "scan_schemas hyper_file od ((schema, table_names) # rest) =
     (case table_names of
        None \<Rightarrow> (AList.update schema (get_or_empty od schema) od, [], Some HyperException)
      | Some ts \<Rightarrow>
          (case scan_tables hyper_file (get_or_empty od schema) ts of
             (tabs, log, Some e) \<Rightarrow> (AList.update schema tabs od, log, Some e)
           | (tabs, log, None) \<Rightarrow>
               (case scan_schemas hyper_file (AList.update schema tabs od) rest of
                  (od', log', r) \<Rightarrow> (od', log @ log', r))))"

text \<open>
  The body of the loop of line 66: the \<^verbatim>\<open>try\<close> of line 67 with its handler (lines 101
  to 103) and line 105. The prompt of line 103 returns when the operator presses Enter.
\<close>

definition scan_file :: "directory \<Rightarrow> output_dict \<Rightarrow> string \<Rightarrow> output_dict \<times> event list" where
  "scan_file dir od hyper_file =
     (case dir hyper_file of
        None \<Rightarrow> (od, [Connect hyper_file, Read_problem hyper_file, Closed hyper_file])
      | Some None \<Rightarrow>
          (od, [Connect hyper_file, Processing hyper_file, Read_problem hyper_file,
                Closed hyper_file])
      | Some (Some catalog) \<Rightarrow>
          (case scan_schemas hyper_file od catalog of
             (od', log, None) \<Rightarrow>
               (od', [Connect hyper_file, Processing hyper_file] @ log @ [Closed hyper_file])
           | (od', log, Some e) \<Rightarrow>
               (od', [Connect hyper_file, Processing hyper_file] @ log
                     @ [Read_problem hyper_file, Closed hyper_file])))"

fun scan :: "directory \<Rightarrow> output_dict \<Rightarrow> string list \<Rightarrow> output_dict \<times> event list" where
  "scan dir od [] = (od, [])"
| "scan dir od (hyper_file # worklist) =
     (case scan_file dir od hyper_file of
        (od', log) \<Rightarrow> (case scan dir od' worklist of (od'', log') \<Rightarrow> (od'', log @ log')))"

text \<open>The unified columns of a (schema, table) pair.\<close>

definition unified_columns :: "output_dict \<Rightarrow> string \<Rightarrow> string \<Rightarrow> column list" where
  "unified_columns od schema table = get_or_empty (get_or_empty od schema) table"

section \<open>Command line and worklist (lines 20 to 52)\<close>

record args =
  output_file :: string
  preserve_output_file :: bool
  source_file_column_name :: string

text \<open>\<^verbatim>\<open>s.split(".")[-1]\<close>: what follows the last dot, the whole string without a dot.\<close>

definition split_last :: "string \<Rightarrow> string" where
  "split_last s = rev (takeWhile (\<lambda>c. c \<noteq> CHR ''.'') (rev s))"

text \<open>The variable \<^verbatim>\<open>output_file\<close> of lines 47 and 49: the file the output is written to.\<close>

definition database_output_file :: "args \<Rightarrow> string" where
  "database_output_file args =
     (if \<not> preserve_output_file args then output_file args
      else split_last (output_file args) @ ''_temp.hyper'')"

text \<open>
  The variable \<^verbatim>\<open>worklist\<close> of lines 46 and 50; \<open>hyper_files\<close> is the result of
  \<^verbatim>\<open>glob.glob("*.hyper")\<close>.
\<close>

definition worklist_of :: "args \<Rightarrow> string list \<Rightarrow> string list" where
  "worklist_of args hyper_files =
     (if \<not> preserve_output_file args
      then [hyper_file \<leftarrow> hyper_files. hyper_file \<noteq> output_file args]
      else [hyper_file \<leftarrow> hyper_files. hyper_file \<noteq> database_output_file args])"

section \<open>The engine's identifier escaping\<close>

text \<open>
  \<^verbatim>\<open>THA.escape_name\<close> is a function of the Hyper API, not of this repository; the spec
  only names it (\<^verbatim>\<open>escapeIdentifier\<close>). What is modelled of it is what the API does:
  \<^item> the escaped form of a name without control characters is the name between double
    quotes, with every double quote inside it doubled, the case of the letters kept
    (\<open>quote_name\<close>); a name with a control character gets the form \<^verbatim>\<open>U&"..."\<close>
    from the API, which \<open>quote_name\<close> does not give: the names of the model hold no
    control character;
  \<^item> called on a string, it raises \<^verbatim>\<open>ValueError\<close> for the empty string and gives the
    escaped form otherwise (\<open>escape_name\<close>);
  \<^item> called on the \<^verbatim>\<open>Name\<close> of a column, schema or table, it gives the escaped
    form the \<^verbatim>\<open>Name\<close> holds; a \<^verbatim>\<open>Name\<close> is never empty.
  The two functions of the script that compare escaped names take the escaped form as a
  parameter \<open>esc\<close>, so that what they need of it can be stated; the script's own
  functions are their instances at \<open>quote_name\<close>.
\<close>

definition quote_name :: "string \<Rightarrow> string" where
  \<open>quote_name identifier =
     ''"'' @ concat (map (\<lambda>c. if c = CHR ''"'' then ''""'' else [c]) identifier) @ ''"''\<close>

definition escape_with :: "(string \<Rightarrow> string) \<Rightarrow> string \<Rightarrow> exception + string" where
  "escape_with esc identifier =
     (if identifier = [] then Inl ValueError else Inr (esc identifier))"

definition escape_name :: "string \<Rightarrow> exception + string" where
  "escape_name identifier = escape_with quote_name identifier"

section \<open>Build phase (lines 112 to 137)\<close>

text \<open>The column of line 122; the collation of a column defaults to none.\<close>

definition source_file_column :: "args \<Rightarrow> column" where
  "source_file_column args =
     \<lparr>name = source_file_column_name args, type = Sql_text,
      nullability = NOT_NULLABLE, collation = None\<rparr>"

text \<open>
  Lines 121 and 122; \<open>cols\<close> is \<^verbatim>\<open>output_dict[schema][table]\<close>. The second conjunct
  is evaluated for a non-empty column name only, so its call of \<^verbatim>\<open>THA.escape_name\<close>
  on the configured name does not raise.
\<close>

definition add_source_file_column_with ::
  "(string \<Rightarrow> string) \<Rightarrow> args \<Rightarrow> column list \<Rightarrow> column list" where
  "add_source_file_column_with esc args cols =
     (if length (source_file_column_name args) > 0
         \<and> length [column \<leftarrow> cols.
                     Inr (esc (name column)) = escape_with esc (source_file_column_name args)] < 1
      then cols @ [source_file_column args]
      else cols)"

definition add_source_file_column :: "args \<Rightarrow> column list \<Rightarrow> column list" where
  "add_source_file_column args cols = add_source_file_column_with quote_name args cols"

text \<open>The columns of the \<^verbatim>\<open>table_definition\<close> of lines 124 to 135.\<close>

definition table_definition_columns :: "column list \<Rightarrow> column list" where
  "table_definition_columns cols =
     [\<lparr>name = name column, type = type column,
       nullability = NULLABLE, collation = collation column\<rparr>. column \<leftarrow> cols]"

section \<open>Query synthesis and row move (lines 144 to 193)\<close>

text \<open>
  What one pass of the loop of line 153 appends to the query (lines 154 to 159);
  \<open>source_definition\<close> is what \<^verbatim>\<open>connection.catalog.get_table_definition(name=table)\<close>
  answers, \<open>None\<close> when it raises. Line 154 reads the source definition first; then
  line 154 (when the source has the column) or line 157 (when it has not) escapes the
  column's name and the configured name, and the latter raises when the configured name
  is empty.
\<close>

definition select_item_with ::
  "(string \<Rightarrow> string) \<Rightarrow> args \<Rightarrow> column list option \<Rightarrow> column \<Rightarrow> exception + string" where
  "select_item_with esc args source_definition column =
     (case source_definition of
        None \<Rightarrow> Inl HyperException
      | Some source_columns \<Rightarrow>
          (case escape_with esc (source_file_column_name args) of
             Inl e \<Rightarrow> Inl e
           | Inr source_file_name \<Rightarrow>
               Inr (if name column \<in> set (map name source_columns)
                       \<and> esc (name column) \<noteq> source_file_name
                    then '' '' @ esc (name column) @ '',''
                    else if esc (name column) \<noteq> source_file_name
                    then '' NULL as '' @ esc (name column) @ '',''
                    else [])))"

definition select_item :: "args \<Rightarrow> column list option \<Rightarrow> column \<Rightarrow> exception + string" where
  "select_item args source_definition column =
     select_item_with quote_name args source_definition column"

text \<open>
  The loop of line 153 on the query built so far: an exception leaves the loop with the
  query as it is.
\<close>

fun select_items ::
  "args \<Rightarrow> column list option \<Rightarrow> string \<Rightarrow> column list \<Rightarrow> string \<times> exception option" where
  "select_items args source_definition query [] = (query, None)"
| "select_items args source_definition query (column # columns) =
     (case select_item args source_definition column of
        Inl e \<Rightarrow> (query, Some e)
      | Inr item \<Rightarrow> select_items args source_definition (query @ item) columns)"

text \<open>
  What lines 160 to 164 append to the query; \<open>CHR 0x27\<close> is the single quote. Line 164
  escapes a non-empty name.
\<close>

definition source_file_item :: "args \<Rightarrow> string \<Rightarrow> string" where
  \<open>source_file_item args hyper_file =
     (if length (source_file_column_name args) > 0
      then (if hyper_file \<noteq> output_file args
            then '' '' @ [CHR 0x27] @ hyper_file @ [CHR 0x27] @ '' as ''
                 @ source_file_column_name args @ '',''
            else '' '' @ quote_name (source_file_column_name args) @ '' as ''
                 @ source_file_column_name args @ '','')
      else [])\<close>

text \<open>
  Lines 152 to 167; \<open>columns\<close> is \<^verbatim>\<open>table_definition.columns\<close>. The result is the
  variable \<^verbatim>\<open>query\<close> when the \<^verbatim>\<open>try\<close> of line 151 is left, with the exception
  that left it, if any. The slice \<^verbatim>\<open>query[:-1]\<close> drops the last character.
\<close>

definition build_query ::
  "args \<Rightarrow> string \<Rightarrow> string \<Rightarrow> string \<Rightarrow> column list \<Rightarrow> column list option
   \<Rightarrow> string \<times> exception option" where
  "build_query args hyper_file schema table columns source_definition =
     (case select_items args source_definition ''SELECT '' columns of
        (query, Some e) \<Rightarrow> (query, Some e)
      | (query, None) \<Rightarrow>
          (butlast (query @ source_file_item args hyper_file)
           @ '' FROM '' @ quote_name schema @ ''.'' @ quote_name table, None))"

text \<open>
  Lines 146 to 175 for one file and one unified table: the calls and log records up to
  the call of \<^verbatim>\<open>execute_list_query\<close>. The test of line 149 stops at the first false
  conjunct. When the building of the query raises, the handler of line 169 logs the
  problem and line 175 runs the query as far as it was built. What follows the call of
  line 175 depends on the engine's answer and on earlier passes and is not part of the
  trace: a query the engine refuses is logged at line 177; the rows are inserted at lines
  180 to 182, the rows of an earlier pass when this query was refused, and a failure is
  logged at line 184; when no query has given rows yet, line 186 raises
  \<^verbatim>\<open>NameError\<close>, which line 192 logs. In every case the loop of line 144 goes on with
  the next file.
\<close>

definition move_file ::
  "args \<Rightarrow> directory \<Rightarrow> string \<Rightarrow> string \<Rightarrow> column list \<Rightarrow> string \<Rightarrow> event list" where
  "move_file args dir schema table columns hyper_file =
     Connect hyper_file #
     (case dir hyper_file of
        None \<Rightarrow> [Assimilate_problem hyper_file]
      | Some None \<Rightarrow> [Ingesting hyper_file, Assimilate_problem hyper_file]
      | Some (Some catalog) \<Rightarrow>
          Ingesting hyper_file #
          (case map_of catalog schema of
             None \<Rightarrow> [Table_absent hyper_file]
           | Some None \<Rightarrow> [Assimilate_problem hyper_file]
           | Some (Some ts) \<Rightarrow>
               (case map_of ts table of
                  None \<Rightarrow> [Table_absent hyper_file]
                | Some source_definition \<Rightarrow>
                    (case build_query args hyper_file schema table columns source_definition of
                       (query, Some e) \<Rightarrow>
                         [Query_problem table hyper_file, Execute hyper_file query]
                     | (query, None) \<Rightarrow> [Execute hyper_file query]))))"

text \<open>
  Lines 116 to 193 for one unified table, and the loops of lines 112 and 116. The
  connection to the output file (line 110) and the engine's create calls (lines 114 and
  137) are taken to succeed. Line 122 appends to \<^verbatim>\<open>output_dict[schema][table]\<close> itself;
  nothing reads the dictionary after that but the lines modelled here.
\<close>

definition build_table ::
  "args \<Rightarrow> directory \<Rightarrow> string list \<Rightarrow> string \<Rightarrow> string \<times> column list \<Rightarrow> event list" where
  "build_table args dir files schema entry =
     (case entry of (table, cols) \<Rightarrow>
        (let columns = table_definition_columns (add_source_file_column args cols)
         in Create_table schema table columns
            # concat (map (move_file args dir schema table columns) files)))"

definition build_schema ::
  "args \<Rightarrow> directory \<Rightarrow> string list \<Rightarrow> string \<times> output_tables \<Rightarrow> event list" where
  "build_schema args dir files entry =
     (case entry of (schema, tabs) \<Rightarrow>
        Create_schema schema # concat (map (build_table args dir files schema) tabs))"

definition build :: "args \<Rightarrow> directory \<Rightarrow> string list \<Rightarrow> output_dict \<Rightarrow> event list" where
  "build args dir files od = concat (map (build_schema args dir files) od)"

text \<open>
  The whole run: the scan of the worklist, then the build and the row move. The prompts
  of the handlers return when the operator presses Enter.
\<close>

definition run :: "args \<Rightarrow> string list \<Rightarrow> directory \<Rightarrow> event list" where
  "run args hyper_files dir =
     (case scan dir [] (worklist_of args hyper_files) of
        (od, log) \<Rightarrow> log @ build args dir (worklist_of args hyper_files) od)"

section \<open>What the properties are stated with\<close>

text \<open>The three properties that line 96 compares.\<close>

definition triple :: "column \<Rightarrow> sql_type \<times> nullability \<times> string option" where
  "triple column = (type column, nullability column, collation column)"

text \<open>
  The columns the scan of a file sees, written from the catalog alone: the walk of the
  catalog stops at the first call that raises. \<open>tables_seen\<close> are the tables of one
  schema whose definitions are read, \<open>catalog_seen\<close> the same for a whole catalog, and
  \<open>columns_seen\<close> the columns read from one file for one (schema, table) pair, in the
  order the scan reads them.
\<close>

fun tables_seen :: "tables \<Rightarrow> (string \<times> column list) list" where
  "tables_seen [] = []"
| "tables_seen ((table, None) # rest) = []"
| "tables_seen ((table, Some columns) # rest) = (table, columns) # tables_seen rest"

definition tables_ok :: "tables \<Rightarrow> bool" where
  "tables_ok ts = list_all (\<lambda>entry. snd entry \<noteq> None) ts"

fun catalog_seen :: "catalog \<Rightarrow> (string \<times> string \<times> column list) list" where
  "catalog_seen [] = []"
| "catalog_seen ((schema, None) # rest) = []"
| "catalog_seen ((schema, Some ts) # rest) =
     map (\<lambda>entry. (schema, entry)) (tables_seen ts)
     @ (if tables_ok ts then catalog_seen rest else [])"

definition columns_seen :: "directory \<Rightarrow> string \<Rightarrow> string \<Rightarrow> string \<Rightarrow> column list" where
  "columns_seen dir hyper_file schema table =
     (case dir hyper_file of
        Some (Some catalog) \<Rightarrow>
          concat (map (\<lambda>(s, t, columns). if s = schema \<and> t = table then columns else [])
                      (catalog_seen catalog))
      | _ \<Rightarrow> [])"

text \<open>
  The unification as section 4.1 of the spec words it, on the columns in the order they are
  seen. \<open>first_seen cols columns\<close>: a column whose name is not there yet is inserted as
  it is, a column whose name is there changes nothing. \<open>conflict_reports cols pairs\<close>,
  on columns paired with the file they come from: a column whose name is there with the
  same type, nullability and collation reports nothing, one whose name is there with
  another triple reports a conflict with the existing column and the file.
  \<open>seen_pairs\<close> are the columns seen for one (schema, table) pair in the files of a
  worklist, in scan order, each with its file.
\<close>

fun first_seen :: "column list \<Rightarrow> column list \<Rightarrow> column list" where
  "first_seen cols [] = cols"
| "first_seen cols (column # columns) =
     first_seen (if name column \<in> set (map name cols) then cols else cols @ [column]) columns"

fun conflict_reports :: "column list \<Rightarrow> (column \<times> string) list \<Rightarrow> event list" where
  "conflict_reports cols [] = []"
| "conflict_reports cols ((column, hyper_file) # rest) =
     (case find (\<lambda>c. name c = name column) cols of
        None \<Rightarrow> conflict_reports (cols @ [column]) rest
      | Some existing \<Rightarrow>
          (if triple column = triple existing then []
           else [Conflict column existing hyper_file])
          @ conflict_reports cols rest)"

definition seen_pairs ::
  "directory \<Rightarrow> string list \<Rightarrow> string \<Rightarrow> string \<Rightarrow> (column \<times> string) list" where
  "seen_pairs dir files schema table =
     concat (map (\<lambda>hyper_file. map (\<lambda>column. (column, hyper_file))
                                   (columns_seen dir hyper_file schema table)) files)"

text \<open>A file fails in the scan when its connection or one of its catalog calls raises.\<close>

fun catalog_ok :: "catalog \<Rightarrow> bool" where
  "catalog_ok [] = True"
| "catalog_ok ((schema, None) # rest) = False"
| "catalog_ok ((schema, Some ts) # rest) = (tables_ok ts \<and> catalog_ok rest)"

definition file_fails :: "directory \<Rightarrow> string \<Rightarrow> bool" where
  "file_fails dir hyper_file =
     (case dir hyper_file of Some (Some catalog) \<Rightarrow> \<not> catalog_ok catalog | _ \<Rightarrow> True)"

text \<open>
  The files a list of events connects to, in order, and the files it reports a read
  problem for.
\<close>

fun connects :: "event list \<Rightarrow> string list" where
  "connects [] = []"
| "connects (Connect f # es) = f # connects es"
| "connects (e # es) = connects es"

fun read_problems :: "event list \<Rightarrow> string list" where
  "read_problems [] = []"
| "read_problems (Read_problem f # es) = f # read_problems es"
| "read_problems (e # es) = read_problems es"

text \<open>The loops inside one file log nothing but conflicts.\<close>

definition is_conflict :: "event \<Rightarrow> bool" where
  "is_conflict e = (case e of Conflict c m f \<Rightarrow> True | _ \<Rightarrow> False)"

text \<open>
  The text that a pass of the loop of line 153 appends for a column, nothing when the
  pass raises; and the items of a query one by one: the texts that the passes of the loop
  and lines 160 to 164 append, the empty ones left out. The query hands them to the
  engine in this order, and the rows it answers are inserted by position into the
  columns of the table definition (line 180).
\<close>

definition item_of :: "args \<Rightarrow> column list \<Rightarrow> column \<Rightarrow> string" where
  "item_of args source_columns column =
     (case select_item args (Some source_columns) column of Inl e \<Rightarrow> [] | Inr item \<Rightarrow> item)"

definition select_list :: "args \<Rightarrow> string \<Rightarrow> column list \<Rightarrow> column list \<Rightarrow> string list" where
  "select_list args hyper_file source_columns columns =
     [item \<leftarrow> map (item_of args source_columns) columns @ [source_file_item args hyper_file].
        item \<noteq> []]"

text \<open>
  The names of the output columns of a query that is built with a non-empty configured
  column name, in order and as the query writes them: a pass of the loop of line 153 that
  appends an item (line 156 or line 159) gives the column of that name, and the item of
  lines 160 to 164 gives the alias as it is configured (the engine reads an alias that
  is not quoted in lower case).
\<close>

definition selected_names :: "args \<Rightarrow> column list \<Rightarrow> string list" where
  "selected_names args columns =
     [name column. column \<leftarrow> columns,
        quote_name (name column) \<noteq> quote_name (source_file_column_name args)]
     @ (if length (source_file_column_name args) > 0 then [source_file_column_name args] else [])"




definition lower_case :: "char \<Rightarrow> char" where
  "lower_case c =
     (case map_of (zip ''ABCDEFGHIJKLMNOPQRSTUVWXYZ'' ''abcdefghijklmnopqrstuvwxyz'') c of
        None \<Rightarrow> c | Some l \<Rightarrow> l)"


text \<open>
  Modelled from the spec: \<^verbatim>\<open>escapeIdentifier\<close> as the spec words it, a
  \<^emph>\<open>normalized-quoted string\<close> (section 6) that gives a \<^emph>\<open>case/escaping-insensitive
  comparison\<close> (section 4.2): the name in lower case, between double quotes. The quoting
  of the API, \<open>quote_name\<close>, keeps the case.
\<close>

definition normalized_name :: "string \<Rightarrow> string" where
  "normalized_name identifier = quote_name (map lower_case identifier)"

section \<open>What the proofs are stated with\<close>

text \<open>
  The names of the columns seen, by table and by (schema, table) pair, and the columns
  themselves.
\<close>

definition seen_names :: "(string \<times> column list) list \<Rightarrow> string \<Rightarrow> string set" where
  "seen_names xs table = (\<Union>entry \<in> set xs. if fst entry = table then set (map name (snd entry)) else {})"

definition catalog_names :: "catalog \<Rightarrow> string \<Rightarrow> string \<Rightarrow> string set" where
  "catalog_names catalog schema table =
     set (map name (concat (map (\<lambda>(s, t, columns). if s = schema \<and> t = table then columns else [])
                      (catalog_seen catalog))))"

definition columns_of :: "(string \<times> column list) list \<Rightarrow> string \<Rightarrow> column list" where
  "columns_of xs table = concat (map (\<lambda>entry. if fst entry = table then snd entry else []) xs)"

definition catalog_columns :: "catalog \<Rightarrow> string \<Rightarrow> string \<Rightarrow> column list" where
  "catalog_columns catalog schema table =
     concat (map (\<lambda>(s, t, columns). if s = schema \<and> t = table then columns else [])
                 (catalog_seen catalog))"

text \<open>
  \<open>tables_covered tabs ts\<close>: every table of \<open>ts\<close> that the scan reaches has its key
  in \<open>tabs\<close> and all its column names there; \<open>tables_le\<close> orders two states of
  \<^verbatim>\<open>output_dict[schema]\<close> by their keys and column names. \<open>catalog_covered\<close> and
  \<open>dict_le\<close> are the same one level up.
\<close>

fun tables_covered :: "output_tables \<Rightarrow> tables \<Rightarrow> bool" where
  "tables_covered tabs [] = True"
| "tables_covered tabs ((table, None) # rest) = (table \<in> fst ` set tabs)"
| "tables_covered tabs ((table, Some columns) # rest) =
     (table \<in> fst ` set tabs
      \<and> set (map name columns) \<subseteq> set (map name (get_or_empty tabs table))
      \<and> tables_covered tabs rest)"

definition tables_le :: "output_tables \<Rightarrow> output_tables \<Rightarrow> bool" where
  "tables_le tabs tabs' =
     (fst ` set tabs \<subseteq> fst ` set tabs'
      \<and> (\<forall>t. set (map name (get_or_empty tabs t)) \<subseteq> set (map name (get_or_empty tabs' t))))"

fun catalog_covered :: "output_dict \<Rightarrow> catalog \<Rightarrow> bool" where
  "catalog_covered od [] = True"
| "catalog_covered od ((schema, None) # rest) = (schema \<in> fst ` set od)"
| "catalog_covered od ((schema, Some ts) # rest) =
     (schema \<in> fst ` set od
      \<and> tables_covered (get_or_empty od schema) ts
      \<and> (tables_ok ts \<longrightarrow> catalog_covered od rest))"

definition dict_le :: "output_dict \<Rightarrow> output_dict \<Rightarrow> bool" where
  "dict_le od od' =
     (fst ` set od \<subseteq> fst ` set od'
      \<and> (\<forall>s. tables_le (get_or_empty od s) (get_or_empty od' s)))"

definition file_covered :: "directory \<Rightarrow> output_dict \<Rightarrow> string \<Rightarrow> bool" where
  "file_covered dir od f =
     (case dir f of Some (Some catalog) \<Rightarrow> catalog_covered od catalog | _ \<Rightarrow> True)"

text \<open>A value as a string literal writes it: every single quote twice.\<close>

definition doubled :: "string \<Rightarrow> string" where
  "doubled v = concat (map (\<lambda>c. if c = CHR 0x27 then [CHR 0x27, CHR 0x27] else [c]) v)"

section \<open>Concrete inputs\<close>

text \<open>
  The default command line, and the command line of the append mode
  (\<^verbatim>\<open>--preserve-output-file\<close>).
\<close>

definition scenario_args :: args where
  "scenario_args =
     \<lparr>output_file = ''union.hyper'', preserve_output_file = False,
      source_file_column_name = ''source_file''\<rparr>"

definition append_args :: args where
  "append_args =
     \<lparr>output_file = ''union.hyper'', preserve_output_file = True,
      source_file_column_name = ''source_file''\<rparr>"

text \<open>
  Columns and directories: two sales files; two extracts in conflict, each with the
  schemas \<^verbatim>\<open>public\<close> and \<^verbatim>\<open>Extract\<close>; an earlier output with a new file for the
  append mode; an earlier union as an ordinary source; and two files with single quotes
  in their names.
\<close>

definition id_column :: column where
  "id_column = \<lparr>name = ''id'', type = Sql_int, nullability = NOT_NULLABLE, collation = None\<rparr>"

definition amount_double :: column where
  "amount_double =
     \<lparr>name = ''amount'', type = Sql_double, nullability = NOT_NULLABLE, collation = None\<rparr>"

definition amount_text :: column where
  "amount_text =
     \<lparr>name = ''amount'', type = Sql_text, nullability = NOT_NULLABLE, collation = None\<rparr>"

definition vat_double :: column where
  "vat_double = \<lparr>name = ''vat'', type = Sql_double, nullability = NULLABLE, collation = None\<rparr>"

definition source_file_text :: column where
  "source_file_text =
     \<lparr>name = ''source_file'', type = Sql_text, nullability = NULLABLE, collation = None\<rparr>"

definition note_text :: column where
  "note_text = \<lparr>name = ''note'', type = Sql_text, nullability = NULLABLE, collation = None\<rparr>"

definition source_file_upper :: column where
  "source_file_upper =
     \<lparr>name = ''Source_File'', type = Sql_text, nullability = NULLABLE, collation = None\<rparr>"

definition scenario_directory :: directory where
  "scenario_directory f =
     (if f = ''sales_us.hyper''
      then Some (Some [(''public'', Some [(''sales'', Some [id_column, amount_double])])])
      else if f = ''sales_eu.hyper''
      then Some (Some [(''public'', Some [(''sales'', Some [id_column, amount_double, vat_double])])])
      else None)"

definition conflict_directory :: directory where
  "conflict_directory f =
     (if f = ''a.hyper''
      then Some (Some [(''public'', Some []),
                       (''Extract'', Some [(''Extract'', Some [id_column, amount_double])])])
      else if f = ''b.hyper''
      then Some (Some [(''public'', Some []),
                       (''Extract'', Some [(''Extract'', Some [id_column, amount_text])])])
      else None)"

definition append_directory :: directory where
  "append_directory f =
     (if f = ''union.hyper''
      then Some (Some [(''public'', Some [(''sales'', Some [id_column, source_file_text])])])
      else if f = ''new.hyper''
      then Some (Some [(''public'', Some [(''sales'', Some [id_column, vat_double])])])
      else None)"

definition earlier_union_directory :: directory where
  "earlier_union_directory f =
     (if f = ''x.hyper''
      then Some (Some [(''public'', Some [(''sales'', Some [id_column, source_file_text, note_text])])])
      else None)"

definition doubled_quote_file :: string where
  "doubled_quote_file = ''a'' @ [CHR 0x27, CHR 0x27] @ ''b.hyper''"

definition quote_directory :: directory where
  "quote_directory f =
     (if f = doubled_quote_file \<or> f = ''it'' @ [CHR 0x27] @ ''s.hyper''
      then Some (Some [(''public'', Some [(''sales'', Some [id_column])])])
      else None)"

lemmas scenario_defs =
  scenario_args_def append_args_def id_column_def amount_double_def amount_text_def vat_double_def
  source_file_text_def scenario_directory_def conflict_directory_def append_directory_def
  note_text_def source_file_upper_def earlier_union_directory_def doubled_quote_file_def
  quote_directory_def

section \<open>The scan: basic facts\<close>

lemma get_or_empty_update:
  "get_or_empty (AList.update k v d) k' = (if k' = k then v else get_or_empty d k')"
  by (simp add: get_or_empty_def update_conv')

lemma get_or_empty_Nil [simp]: "get_or_empty [] k = []"
  by (simp add: get_or_empty_def)

lemma filter_case_find:
  "(case filter P xs of [] \<Rightarrow> a | m # _ \<Rightarrow> b m) = (case find P xs of None \<Rightarrow> a | Some m \<Rightarrow> b m)"
  by (induction xs) auto

lemma find_name_Some:
  "n \<in> set (map name cols) \<Longrightarrow> \<exists>m. find (\<lambda>c. name c = n) cols = Some m \<and> name m = n \<and> m \<in> set cols"
  by (induction cols) auto

text \<open>A column is appended when its name is new, and the list is left alone otherwise.\<close>

lemma scan_column_new:
  "name column \<notin> set (map name cols) \<Longrightarrow> scan_column f cols column = Inr (cols @ [column], [])"
  by (simp add: scan_column_def)

lemma scan_column_old:
  assumes "name column \<in> set (map name cols)"
  shows "\<exists>log. scan_column f cols column = Inr (cols, log)"
proof -
  from find_name_Some [OF assms] obtain m where "find (\<lambda>c. name c = name column) cols = Some m"
    by blast
  then show ?thesis using assms
    by (simp add: scan_column_def filter_case_find)
qed

lemma scan_column_names:
  "\<exists>cols' log. scan_column f cols column = Inr (cols', log)
      \<and> set (map name cols') = insert (name column) (set (map name cols))"
proof (cases "name column \<in> set (map name cols)")
  case True
  from scan_column_old [OF True] obtain log where "scan_column f cols column = Inr (cols, log)"
    by blast
  with True show ?thesis by (auto simp: insert_absorb)
next
  case False
  then show ?thesis by (simp add: scan_column_new)
qed

lemma scan_columns_names:
  "\<exists>cols' log. scan_columns f cols columns = (cols', log, None)
      \<and> set (map name cols') = set (map name cols) \<union> set (map name columns)"
proof (induction columns arbitrary: cols)
  case Nil
  show ?case by simp
next
  case (Cons c cs)
  obtain cols1 log1 where 1: "scan_column f cols c = Inr (cols1, log1)"
    and n1: "set (map name cols1) = insert (name c) (set (map name cols))"
    using scan_column_names by blast
  obtain cols2 log2 where 2: "scan_columns f cols1 cs = (cols2, log2, None)"
    and n2: "set (map name cols2) = set (map name cols1) \<union> set (map name cs)"
    using Cons.IH by blast
  show ?case using 1 2 n1 n2 by auto
qed

section \<open>The unified columns are the columns seen\<close>

lemma seen_names_simps [simp]:
  "seen_names [] t = {}"
  "seen_names ((t', cols) # xs) t = (if t' = t then set (map name cols) else {}) \<union> seen_names xs t"
  by (auto simp: seen_names_def)

lemma scan_tables_names:
  "\<exists>tabs' log r. scan_tables f tabs ts = (tabs', log, r)
      \<and> (r = None \<longleftrightarrow> tables_ok ts)
      \<and> (\<forall>t. set (map name (get_or_empty tabs' t))
               = set (map name (get_or_empty tabs t)) \<union> seen_names (tables_seen ts) t)"
proof (induction ts arbitrary: tabs)
  case Nil
  show ?case by (simp add: tables_ok_def)
next
  case (Cons entry rest)
  obtain table d where entry: "entry = (table, d)" by (cases entry)
  show ?case
  proof (cases d)
    case None
    then show ?thesis using entry
      by (simp add: tables_ok_def get_or_empty_update)
  next
    case (Some columns)
    obtain cols log1 where 1: "scan_columns f (get_or_empty tabs table) columns = (cols, log1, None)"
      and n1: "set (map name cols) = set (map name (get_or_empty tabs table)) \<union> set (map name columns)"
      using scan_columns_names by blast
    obtain tabs' log2 r where 2: "scan_tables f (AList.update table cols tabs) rest = (tabs', log2, r)"
      and r: "r = None \<longleftrightarrow> tables_ok rest"
      and n2: "\<forall>t. set (map name (get_or_empty tabs' t))
               = set (map name (get_or_empty (AList.update table cols tabs) t)) \<union> seen_names (tables_seen rest) t"
      using Cons.IH by blast
    have "scan_tables f tabs (entry # rest) = (tabs', log1 @ log2, r)"
      using entry Some 1 2 by simp
    moreover have "(r = None) = tables_ok (entry # rest)"
      using r entry Some by (simp add: tables_ok_def)
    moreover have "\<forall>t. set (map name (get_or_empty tabs' t))
               = set (map name (get_or_empty tabs t)) \<union> seen_names (tables_seen (entry # rest)) t"
      using n2 n1 entry Some by (auto simp: get_or_empty_update)
    ultimately show ?thesis by blast
  qed
qed

lemma names_of_schema_entries:
  "set (map name (concat (map (\<lambda>(s, t, columns). if s = schema \<and> t = table then columns else [])
                      (map (\<lambda>entry. (schema', entry)) xs))))
   = (if schema' = schema then seen_names xs table else {})"
  by (induction xs) (auto split: if_splits)

lemma catalog_names_simps:
  "catalog_names [] s t = {}"
  "catalog_names ((schema, None) # rest) s t = {}"
  "catalog_names ((schema, Some ts) # rest) s t =
     (if schema = s then seen_names (tables_seen ts) t else {})
     \<union> (if tables_ok ts then catalog_names rest s t else {})"
  using names_of_schema_entries [of s t schema "tables_seen ts"]
  by (auto simp: catalog_names_def)

lemma unified_columns_update:
  "unified_columns (AList.update schema tabs od) s t =
     (if s = schema then get_or_empty tabs t else unified_columns od s t)"
  by (simp add: unified_columns_def get_or_empty_update)

lemma scan_schemas_names:
  "\<exists>od' log r. scan_schemas f od catalog = (od', log, r)
      \<and> (\<forall>s t. set (map name (unified_columns od' s t))
               = set (map name (unified_columns od s t)) \<union> catalog_names catalog s t)"
proof (induction catalog arbitrary: od)
  case Nil
  show ?case by (simp add: catalog_names_simps)
next
  case (Cons entry rest)
  obtain schema d where entry: "entry = (schema, d)" by (cases entry)
  show ?case
  proof (cases d)
    case None
    then show ?thesis using entry
      by (auto simp: catalog_names_simps unified_columns_def get_or_empty_update)
  next
    case (Some ts)
    obtain tabs log1 r1 where 1: "scan_tables f (get_or_empty od schema) ts = (tabs, log1, r1)"
      and r1: "r1 = None \<longleftrightarrow> tables_ok ts"
      and n1: "\<forall>t. set (map name (get_or_empty tabs t))
               = set (map name (get_or_empty (get_or_empty od schema) t)) \<union> seen_names (tables_seen ts) t"
      using scan_tables_names by blast
    have n1': "\<forall>s t. set (map name (unified_columns (AList.update schema tabs od) s t))
               = set (map name (unified_columns od s t))
                 \<union> (if schema = s then seen_names (tables_seen ts) t else {})"
      using n1 by (auto simp: unified_columns_def get_or_empty_update)
    show ?thesis
    proof (cases r1)
      case None
      obtain od' log2 r where 2: "scan_schemas f (AList.update schema tabs od) rest = (od', log2, r)"
        and n2: "\<forall>s t. set (map name (unified_columns od' s t))
               = set (map name (unified_columns (AList.update schema tabs od) s t)) \<union> catalog_names rest s t"
        using Cons.IH by blast
      have "scan_schemas f od (entry # rest) = (od', log1 @ log2, r)"
        using entry Some 1 2 None by simp
      moreover have "\<forall>s t. set (map name (unified_columns od' s t))
               = set (map name (unified_columns od s t)) \<union> catalog_names (entry # rest) s t"
        using n2 n1' r1 None entry Some by (auto simp: catalog_names_simps)
      ultimately show ?thesis by blast
    next
      case (Some e)
      have "scan_schemas f od (entry # rest) = (AList.update schema tabs od, log1, Some e)"
        using entry \<open>d = Some ts\<close> 1 Some by simp
      moreover have "\<forall>s t. set (map name (unified_columns (AList.update schema tabs od) s t))
               = set (map name (unified_columns od s t)) \<union> catalog_names (entry # rest) s t"
        using n1' r1 Some entry \<open>d = Some ts\<close> by (auto simp: catalog_names_simps)
      ultimately show ?thesis by blast
    qed
  qed
qed

lemma scan_file_names:
  "set (map name (unified_columns (fst (scan_file dir od f)) s t))
     = set (map name (unified_columns od s t)) \<union> set (map name (columns_seen dir f s t))"
proof (cases "\<exists>catalog. dir f = Some (Some catalog)")
  case False
  then show ?thesis by (auto simp: scan_file_def columns_seen_def split: option.splits)
next
  case True
  then obtain catalog where Some: "dir f = Some (Some catalog)" by blast
  obtain od' log r where 1: "scan_schemas f od catalog = (od', log, r)"
    and n: "\<forall>s t. set (map name (unified_columns od' s t))
               = set (map name (unified_columns od s t)) \<union> catalog_names catalog s t"
    using scan_schemas_names by blast
  have "fst (scan_file dir od f) = od'"
    using Some 1 by (cases r) (simp_all add: scan_file_def)
  moreover have "set (map name (columns_seen dir f s t)) = catalog_names catalog s t"
    using Some by (simp add: columns_seen_def catalog_names_def)
  ultimately show ?thesis using n by simp
qed

lemma scan_names:
  "set (map name (unified_columns (fst (scan dir od files)) s t))
     = set (map name (unified_columns od s t))
       \<union> (\<Union>f \<in> set files. set (map name (columns_seen dir f s t)))"
proof (induction files arbitrary: od)
  case Nil
  show ?case by simp
next
  case (Cons f files)
  have "fst (scan dir od (f # files)) = fst (scan dir (fst (scan_file dir od f)) files)"
    by (simp split: prod.splits)
  then show ?case using Cons.IH [of "fst (scan_file dir od f)"] scan_file_names [of dir od f s t]
    by auto
qed

section \<open>Scanning a file again\<close>

lemma update_get_or_empty_same:
  "k \<in> fst ` set d \<Longrightarrow> AList.update k (get_or_empty d k) d = d"
proof -
  assume "k \<in> fst ` set d"
  then obtain v where "map_of d k = Some v"
    by (metis domD dom_map_of_conv_image_fst)
  then show ?thesis by (simp add: get_or_empty_def update_triv)
qed

lemma fst_case_triple [simp]: "fst (case p of (a, b, c) \<Rightarrow> (a, h b, c)) = fst p"
  by (cases p) auto

lemma fst_scan_columns_Cons:
  "scan_column f cols c = Inr (cols', log)
   \<Longrightarrow> fst (scan_columns f cols (c # cs)) = fst (scan_columns f cols' cs)"
  by (cases "scan_columns f cols' cs") simp

lemma fst_scan_tables_Some:
  "scan_columns f (get_or_empty tabs table) columns = (cols, log, None)
   \<Longrightarrow> fst (scan_tables f tabs ((table, Some columns) # rest))
       = fst (scan_tables f (AList.update table cols tabs) rest)"
  by (cases "scan_tables f (AList.update table cols tabs) rest") simp

lemma scan_columns_covered:
  "set (map name columns) \<subseteq> set (map name cols) \<Longrightarrow> fst (scan_columns f cols columns) = cols"
proof (induction columns)
  case Nil
  show ?case by simp
next
  case (Cons c cs)
  then have "name c \<in> set (map name cols)" by simp
  from scan_column_old [OF this] obtain log where "scan_column f cols c = Inr (cols, log)"
    by blast
  then show ?case using Cons by (simp add: fst_scan_columns_Cons)
qed

lemma tables_le_refl: "tables_le tabs tabs"
  by (simp add: tables_le_def)

lemma tables_le_trans: "tables_le a b \<Longrightarrow> tables_le b c \<Longrightarrow> tables_le a c"
  unfolding tables_le_def by (meson order_trans)

lemma tables_covered_mono:
  "tables_covered tabs ts \<Longrightarrow> tables_le tabs tabs' \<Longrightarrow> tables_covered tabs' ts"
proof (induction tabs ts rule: tables_covered.induct)
  case (1 tabs)
  show ?case by simp
next
  case (2 tabs table rest)
  then show ?case by (auto simp: tables_le_def)
next
  case (3 tabs table columns rest)
  from "3.prems" have k: "table \<in> fst ` set tabs'"
    by (auto simp: tables_le_def)
  from "3.prems" have "set (map name (get_or_empty tabs table))
      \<subseteq> set (map name (get_or_empty tabs' table))"
    by (simp add: tables_le_def)
  moreover from "3.prems" have "set (map name columns) \<subseteq> set (map name (get_or_empty tabs table))"
    by simp
  ultimately have n: "set (map name columns) \<subseteq> set (map name (get_or_empty tabs' table))"
    by (rule order_trans [rotated])
  from 3 have "tables_covered tabs' rest" by simp
  with k n show ?case by simp
qed

lemma scan_tables_covered:
  "tables_covered tabs ts \<Longrightarrow> fst (scan_tables f tabs ts) = tabs"
proof (induction tabs ts rule: tables_covered.induct)
  case (1 tabs)
  show ?case by simp
next
  case (2 tabs table rest)
  then show ?case by (simp add: update_get_or_empty_same)
next
  case (3 tabs table columns rest)
  then have c: "fst (scan_columns f (get_or_empty tabs table) columns) = get_or_empty tabs table"
    by (simp add: scan_columns_covered)
  obtain cols log where s: "scan_columns f (get_or_empty tabs table) columns = (cols, log, None)"
    using scan_columns_names by blast
  with c have "cols = get_or_empty tabs table" by simp
  then show ?case using 3 s by (simp add: update_get_or_empty_same fst_scan_tables_Some)
qed

lemma keys_update: "fst ` set (AList.update k v d) = insert k (fst ` set d)"
  by (induction d) auto

lemma scan_tables_keys: "fst ` set tabs \<subseteq> fst ` set (fst (scan_tables f tabs ts))"
proof (induction ts arbitrary: tabs)
  case Nil
  show ?case by simp
next
  case (Cons entry rest)
  obtain table d where entry: "entry = (table, d)" by (cases entry)
  show ?case
  proof (cases d)
    case None
    then show ?thesis using entry by (auto simp: keys_update)
  next
    case (Some columns)
    obtain cols log where s: "scan_columns f (get_or_empty tabs table) columns = (cols, log, None)"
      using scan_columns_names by blast
    have "fst ` set tabs \<subseteq> fst ` set (AList.update table cols tabs)"
      by (auto simp: keys_update)
    also have "\<dots> \<subseteq> fst ` set (fst (scan_tables f (AList.update table cols tabs) rest))"
      by (rule Cons.IH)
    finally show ?thesis using entry Some s by (simp add: fst_scan_tables_Some)
  qed
qed

lemma scan_tables_le: "tables_le tabs (fst (scan_tables f tabs ts))"
proof -
  obtain tabs' log r where s: "scan_tables f tabs ts = (tabs', log, r)"
    and n: "\<forall>t. set (map name (get_or_empty tabs' t))
               = set (map name (get_or_empty tabs t)) \<union> seen_names (tables_seen ts) t"
    using scan_tables_names by blast
  show ?thesis using scan_tables_keys [of tabs f ts] s n by (auto simp: tables_le_def)
qed

lemma scan_tables_result_covered: "tables_covered (fst (scan_tables f tabs ts)) ts"
proof (induction ts arbitrary: tabs)
  case Nil
  show ?case by simp
next
  case (Cons entry rest)
  obtain table d where entry: "entry = (table, d)" by (cases entry)
  show ?case
  proof (cases d)
    case None
    then show ?thesis using entry by (simp add: keys_update)
  next
    case (Some columns)
    obtain cols log where s: "scan_columns f (get_or_empty tabs table) columns = (cols, log, None)"
      and n: "set (map name cols) = set (map name (get_or_empty tabs table)) \<union> set (map name columns)"
      using scan_columns_names by blast
    let ?tabs1 = "AList.update table cols tabs"
    let ?R = "fst (scan_tables f ?tabs1 rest)"
    have r: "fst (scan_tables f tabs (entry # rest)) = ?R"
      using entry Some s by (simp add: fst_scan_tables_Some)
    have "tables_covered ?tabs1 [(table, Some columns)]"
      using n by (simp add: keys_update get_or_empty_update)
    then have "tables_covered ?R [(table, Some columns)]"
      by (rule tables_covered_mono) (rule scan_tables_le)
    moreover have "tables_covered ?R rest" by (rule Cons.IH)
    ultimately show ?thesis using r entry Some by simp
  qed
qed

lemma dict_le_refl: "dict_le od od"
  by (simp add: dict_le_def tables_le_refl)

lemma dict_le_trans: "dict_le a b \<Longrightarrow> dict_le b c \<Longrightarrow> dict_le a c"
  unfolding dict_le_def by (meson order_trans tables_le_trans)

lemma dict_le_update:
  "tables_le (get_or_empty od schema) tabs \<Longrightarrow> dict_le od (AList.update schema tabs od)"
  by (auto simp: dict_le_def keys_update get_or_empty_update tables_le_refl)

lemma catalog_covered_mono:
  "catalog_covered od catalog \<Longrightarrow> dict_le od od' \<Longrightarrow> catalog_covered od' catalog"
proof (induction od catalog rule: catalog_covered.induct)
  case (1 od)
  show ?case by simp
next
  case (2 od schema rest)
  then show ?case by (auto simp: dict_le_def)
next
  case (3 od schema ts rest)
  from "3.prems" have k: "schema \<in> fst ` set od'"
    by (auto simp: dict_le_def)
  from "3.prems" have "tables_le (get_or_empty od schema) (get_or_empty od' schema)"
    by (simp add: dict_le_def)
  moreover from "3.prems" have "tables_covered (get_or_empty od schema) ts"
    by simp
  ultimately have t: "tables_covered (get_or_empty od' schema) ts"
    by (rule tables_covered_mono [rotated])
  from 3 have "tables_ok ts \<longrightarrow> catalog_covered od' rest" by simp
  with k t show ?case by simp
qed

lemma fst_scan_schemas_None:
  "fst (scan_schemas f od ((schema, None) # rest)) = AList.update schema (get_or_empty od schema) od"
  by simp

lemma fst_scan_schemas_Some:
  "fst (scan_schemas f od ((schema, Some ts) # rest)) =
     (if tables_ok ts
      then fst (scan_schemas f (AList.update schema (fst (scan_tables f (get_or_empty od schema) ts)) od) rest)
      else AList.update schema (fst (scan_tables f (get_or_empty od schema) ts)) od)"
proof -
  obtain tabs log r where s: "scan_tables f (get_or_empty od schema) ts = (tabs, log, r)"
    and r: "r = None \<longleftrightarrow> tables_ok ts"
    using scan_tables_names by blast
  show ?thesis using s r by (cases r) auto
qed

lemma scan_schemas_covered:
  "catalog_covered od catalog \<Longrightarrow> fst (scan_schemas f od catalog) = od"
proof (induction od catalog rule: catalog_covered.induct)
  case (1 od)
  show ?case by simp
next
  case (2 od schema rest)
  then show ?case by (simp add: update_get_or_empty_same)
next
  case (3 od schema ts rest)
  then have "fst (scan_tables f (get_or_empty od schema) ts) = get_or_empty od schema"
    by (simp add: scan_tables_covered)
  then show ?case using 3
    by (simp only: fst_scan_schemas_Some) (simp add: update_get_or_empty_same)
qed

lemma scan_schemas_le: "dict_le od (fst (scan_schemas f od catalog))"
proof (induction catalog arbitrary: od)
  case Nil
  show ?case by (simp add: dict_le_refl)
next
  case (Cons entry rest)
  obtain schema d where entry: "entry = (schema, d)" by (cases entry)
  show ?case
  proof (cases d)
    case None
    then show ?thesis using entry
      by (simp only: fst_scan_schemas_None) (simp add: dict_le_update tables_le_refl)
  next
    case (Some ts)
    let ?od1 = "AList.update schema (fst (scan_tables f (get_or_empty od schema) ts)) od"
    have 1: "dict_le od ?od1"
      by (rule dict_le_update) (rule scan_tables_le)
    have 2: "dict_le ?od1 (fst (scan_schemas f ?od1 rest))"
      by (rule Cons.IH)
    show ?thesis using entry Some 1 dict_le_trans [OF 1 2]
      by (simp only: fst_scan_schemas_Some split: if_splits) simp
  qed
qed

lemma scan_schemas_result_covered: "catalog_covered (fst (scan_schemas f od catalog)) catalog"
proof (induction catalog arbitrary: od)
  case Nil
  show ?case by simp
next
  case (Cons entry rest)
  obtain schema d where entry: "entry = (schema, d)" by (cases entry)
  show ?case
  proof (cases d)
    case None
    then show ?thesis using entry
      by (simp only: fst_scan_schemas_None) (simp add: keys_update)
  next
    case (Some ts)
    let ?tabs = "fst (scan_tables f (get_or_empty od schema) ts)"
    let ?od1 = "AList.update schema ?tabs od"
    have head: "catalog_covered ?od1 [(schema, Some ts)]"
      by (simp add: keys_update get_or_empty_update scan_tables_result_covered)
    show ?thesis
    proof (cases "tables_ok ts")
      case True
      let ?R = "fst (scan_schemas f ?od1 rest)"
      have "catalog_covered ?R [(schema, Some ts)]"
        using head by (rule catalog_covered_mono) (rule scan_schemas_le)
      moreover have "catalog_covered ?R rest" by (rule Cons.IH)
      moreover have "fst (scan_schemas f od (entry # rest)) = ?R"
        using entry Some True by (simp only: fst_scan_schemas_Some) simp
      ultimately show ?thesis using entry Some by simp
    next
      case False
      have "fst (scan_schemas f od (entry # rest)) = ?od1"
        using entry Some False by (simp only: fst_scan_schemas_Some) simp
      then show ?thesis using head entry Some False by simp
    qed
  qed
qed

lemma fst_scan_file:
  "fst (scan_file dir od f)
     = (case dir f of Some (Some catalog) \<Rightarrow> fst (scan_schemas f od catalog) | _ \<Rightarrow> od)"
proof (cases "\<exists>catalog. dir f = Some (Some catalog)")
  case False
  then show ?thesis by (auto simp: scan_file_def split: option.splits)
next
  case True
  then obtain catalog where Some: "dir f = Some (Some catalog)" by blast
  obtain od' log r where "scan_schemas f od catalog = (od', log, r)"
    by (cases "scan_schemas f od catalog") auto
  then show ?thesis using Some by (cases r) (simp_all add: scan_file_def)
qed

lemma scan_file_covered: "file_covered dir od f \<Longrightarrow> fst (scan_file dir od f) = od"
  by (auto simp: file_covered_def fst_scan_file scan_schemas_covered split: option.splits)

lemma scan_file_le: "dict_le od (fst (scan_file dir od f))"
  by (auto simp: fst_scan_file dict_le_refl scan_schemas_le split: option.splits)

lemma scan_file_result_covered: "file_covered dir (fst (scan_file dir od f)) f"
  by (auto simp: file_covered_def fst_scan_file scan_schemas_result_covered split: option.splits)

lemma file_covered_mono: "file_covered dir od f \<Longrightarrow> dict_le od od' \<Longrightarrow> file_covered dir od' f"
  by (auto simp: file_covered_def catalog_covered_mono split: option.splits)

lemma fst_scan_Cons: "fst (scan dir od (f # files)) = fst (scan dir (fst (scan_file dir od f)) files)"
  by (simp split: prod.splits)

lemma fst_scan_Nil: "fst (scan dir od []) = od"
  by simp

lemma fst_scan_append: "fst (scan dir od (xs @ ys)) = fst (scan dir (fst (scan dir od xs)) ys)"
  by (induction xs arbitrary: od) (simp_all del: scan.simps add: fst_scan_Cons fst_scan_Nil)

lemma scan_le: "dict_le od (fst (scan dir od files))"
proof (induction files arbitrary: od)
  case Nil
  show ?case by (simp add: dict_le_refl)
next
  case (Cons f files)
  show ?case unfolding fst_scan_Cons
    by (rule dict_le_trans [OF scan_file_le Cons.IH])
qed

lemma scan_result_covered: "f \<in> set files \<Longrightarrow> file_covered dir (fst (scan dir od files)) f"
proof (induction files arbitrary: od)
  case Nil
  then show ?case by simp
next
  case (Cons g files)
  show ?case
  proof (cases "f = g")
    case True
    have "file_covered dir (fst (scan_file dir od g)) g" by (rule scan_file_result_covered)
    then show ?thesis unfolding fst_scan_Cons True
      by (rule file_covered_mono) (rule scan_le)
  next
    case False
    with Cons.prems have "f \<in> set files" by simp
    then show ?thesis unfolding fst_scan_Cons by (rule Cons.IH)
  qed
qed

lemma rescan_unchanged:
  "f \<in> set files \<Longrightarrow> fst (scan_file dir (fst (scan dir od files)) f) = fst (scan dir od files)"
  by (rule scan_file_covered) (rule scan_result_covered)

text \<open>
  Claim C9. Scanning a file twice in a row gives the same \<^verbatim>\<open>output_dict\<close> as
  scanning it once, and so does scanning it again after other files: no column is
  added and none is changed by the second scan.
\<close>

theorem scan_idempotent:
  "fst (scan dir od (files @ [f, f])) = fst (scan dir od (files @ [f]))
   \<and> fst (scan dir od (f # files @ [f])) = fst (scan dir od (f # files))"
proof
  have "fst (scan dir od (files @ [f, f])) = fst (scan dir od ((files @ [f]) @ [f]))" by simp
  also have "\<dots> = fst (scan_file dir (fst (scan dir od (files @ [f]))) f)"
    by (simp del: scan.simps add: fst_scan_append fst_scan_Cons fst_scan_Nil)
  also have "\<dots> = fst (scan dir od (files @ [f]))"
    by (rule rescan_unchanged) simp
  finally show "fst (scan dir od (files @ [f, f])) = fst (scan dir od (files @ [f]))" .
next
  have "fst (scan dir od (f # files @ [f])) = fst (scan dir od ((f # files) @ [f]))" by simp
  also have "\<dots> = fst (scan_file dir (fst (scan dir od (f # files))) f)"
    by (simp del: scan.simps add: fst_scan_append fst_scan_Cons fst_scan_Nil)
  also have "\<dots> = fst (scan dir od (f # files))"
    by (rule rescan_unchanged) simp
  finally show "fst (scan dir od (f # files @ [f])) = fst (scan dir od (f # files))" .
qed

section \<open>The first definition of a column is kept\<close>

lemma find_Some_set: "find P xs = Some m \<Longrightarrow> m \<in> set xs \<and> P m"
  by (induction xs) (auto split: if_splits)

lemma find_append_Some: "find P xs = Some m \<Longrightarrow> find P (xs @ ys) = Some m"
  by (induction xs) auto

lemma scan_column_existing:
  assumes "find (\<lambda>c. name c = name column) cols = Some existing"
  shows "scan_column f cols column
         = Inr (cols, if triple column = triple existing then [] else [Conflict column existing f])"
proof -
  from find_Some_set [OF assms] have "existing \<in> set cols" and "name existing = name column"
    by simp_all
  then have "name column \<in> name ` set cols"
    by (metis imageI)
  then have "name column \<in> set (map name cols)"
    by simp
  then show ?thesis using assms
    by (auto simp: scan_column_def filter_case_find triple_def)
qed

lemma scan_column_prefix:
  "\<exists>cols' log. scan_column f cols column = Inr (cols', log) \<and> prefix cols cols'"
proof (cases "name column \<in> set (map name cols)")
  case True
  from scan_column_old [OF True] obtain log where "scan_column f cols column = Inr (cols, log)"
    by blast
  then show ?thesis by simp
next
  case False
  then show ?thesis by (simp add: scan_column_new)
qed

lemma scan_columns_prefix: "prefix cols (fst (scan_columns f cols columns))"
proof (induction columns arbitrary: cols)
  case Nil
  show ?case by simp
next
  case (Cons c cs)
  obtain cols1 log1 where 1: "scan_column f cols c = Inr (cols1, log1)" and p: "prefix cols cols1"
    using scan_column_prefix by blast
  have "prefix cols1 (fst (scan_columns f cols1 cs))" by (rule Cons.IH)
  with p have "prefix cols (fst (scan_columns f cols1 cs))" by (rule prefix_order.trans)
  then show ?case using 1 by (simp add: fst_scan_columns_Cons del: scan_columns.simps)
qed

lemma find_prefix:
  "prefix xs ys \<Longrightarrow> find P xs = Some m \<Longrightarrow> find P ys = Some m"
  by (auto simp: prefix_def find_append_Some)

lemma find_distinct_name:
  "distinct (map name A) \<Longrightarrow> a \<in> set A \<Longrightarrow> find (\<lambda>c. name c = name a) A = Some a"
  by (induction A) auto

section \<open>Columns are appended, never removed or repeated\<close>

lemma fst_scan_tables_None:
  "fst (scan_tables f tabs ((table, None) # rest)) = AList.update table (get_or_empty tabs table) tabs"
  by simp

lemma fst_scan_tables_Cons:
  "fst (scan_tables f tabs ((table, Some columns) # rest))
     = fst (scan_tables f (AList.update table (fst (scan_columns f (get_or_empty tabs table) columns)) tabs) rest)"
proof -
  obtain cols log where s: "scan_columns f (get_or_empty tabs table) columns = (cols, log, None)"
    using scan_columns_names by blast
  then show ?thesis by (simp add: fst_scan_tables_Some del: scan_tables.simps)
qed

lemma scan_tables_prefix:
  "prefix (get_or_empty tabs t) (get_or_empty (fst (scan_tables f tabs ts)) t)"
proof (induction ts arbitrary: tabs)
  case Nil
  show ?case by simp
next
  case (Cons entry rest)
  obtain table d where entry: "entry = (table, d)" by (cases entry)
  show ?case
  proof (cases d)
    case None
    then show ?thesis using entry
      by (simp only: fst_scan_tables_None) (simp add: get_or_empty_update)
  next
    case (Some columns)
    let ?tabs1 = "AList.update table (fst (scan_columns f (get_or_empty tabs table) columns)) tabs"
    have "prefix (get_or_empty tabs t) (get_or_empty ?tabs1 t)"
      by (simp add: get_or_empty_update scan_columns_prefix)
    moreover have "prefix (get_or_empty ?tabs1 t) (get_or_empty (fst (scan_tables f ?tabs1 rest)) t)"
      by (rule Cons.IH)
    ultimately have "prefix (get_or_empty tabs t) (get_or_empty (fst (scan_tables f ?tabs1 rest)) t)"
      by (rule prefix_order.trans)
    then show ?thesis using entry Some
      by (simp only: fst_scan_tables_Cons)
  qed
qed

lemma scan_schemas_prefix:
  "prefix (unified_columns od s t) (unified_columns (fst (scan_schemas f od catalog)) s t)"
proof (induction catalog arbitrary: od)
  case Nil
  show ?case by simp
next
  case (Cons entry rest)
  obtain schema d where entry: "entry = (schema, d)" by (cases entry)
  show ?case
  proof (cases d)
    case None
    then show ?thesis using entry
      by (simp only: fst_scan_schemas_None) (simp add: unified_columns_def get_or_empty_update)
  next
    case (Some ts)
    let ?od1 = "AList.update schema (fst (scan_tables f (get_or_empty od schema) ts)) od"
    have 1: "prefix (unified_columns od s t) (unified_columns ?od1 s t)"
      by (simp add: unified_columns_def get_or_empty_update scan_tables_prefix)
    have 2: "prefix (unified_columns ?od1 s t) (unified_columns (fst (scan_schemas f ?od1 rest)) s t)"
      by (rule Cons.IH)
    show ?thesis using entry Some 1 prefix_order.trans [OF 1 2]
      by (simp only: fst_scan_schemas_Some split: if_splits) simp
  qed
qed

lemma scan_file_prefix:
  "prefix (unified_columns od s t) (unified_columns (fst (scan_file dir od f)) s t)"
  by (auto simp: fst_scan_file scan_schemas_prefix split: option.splits)

lemma scan_prefix:
  "prefix (unified_columns od s t) (unified_columns (fst (scan dir od files)) s t)"
proof (induction files arbitrary: od)
  case Nil
  show ?case by simp
next
  case (Cons f files)
  show ?case unfolding fst_scan_Cons
    by (rule prefix_order.trans [OF scan_file_prefix Cons.IH])
qed

lemma scan_column_distinct:
  "distinct (map name cols) \<Longrightarrow> scan_column f cols c = Inr (cols', log) \<Longrightarrow> distinct (map name cols')"
proof (cases "name c \<in> set (map name cols)")
  case True
  assume d: "distinct (map name cols)" and s: "scan_column f cols c = Inr (cols', log)"
  from scan_column_old [OF True] obtain log' where "scan_column f cols c = Inr (cols, log')"
    by blast
  with s d show ?thesis by simp
next
  case False
  assume d: "distinct (map name cols)" and s: "scan_column f cols c = Inr (cols', log)"
  from False s have "cols' = cols @ [c]" by (simp add: scan_column_new)
  with d False show ?thesis by simp
qed

lemma scan_columns_distinct:
  "distinct (map name cols) \<Longrightarrow> distinct (map name (fst (scan_columns f cols columns)))"
proof (induction columns arbitrary: cols)
  case Nil
  then show ?case by simp
next
  case (Cons c cs)
  obtain cols1 log1 where 1: "scan_column f cols c = Inr (cols1, log1)"
    using scan_column_prefix by blast
  with Cons.prems have "distinct (map name cols1)" by (rule scan_column_distinct)
  then have "distinct (map name (fst (scan_columns f cols1 cs)))" by (rule Cons.IH)
  then show ?case using 1 by (simp add: fst_scan_columns_Cons del: scan_columns.simps)
qed

lemma scan_tables_distinct:
  "(\<And>t. distinct (map name (get_or_empty tabs t)))
   \<Longrightarrow> distinct (map name (get_or_empty (fst (scan_tables f tabs ts)) t))"
proof (induction ts arbitrary: tabs)
  case Nil
  then show ?case by simp
next
  case (Cons entry rest)
  obtain table d where entry: "entry = (table, d)" by (cases entry)
  show ?case
  proof (cases d)
    case None
    then show ?thesis using entry Cons.prems
      by (simp only: fst_scan_tables_None) (simp add: get_or_empty_update)
  next
    case (Some columns)
    let ?tabs1 = "AList.update table (fst (scan_columns f (get_or_empty tabs table) columns)) tabs"
    have "\<And>t. distinct (map name (get_or_empty ?tabs1 t))"
      using Cons.prems by (simp add: get_or_empty_update scan_columns_distinct)
    then have "distinct (map name (get_or_empty (fst (scan_tables f ?tabs1 rest)) t))"
      by (rule Cons.IH)
    then show ?thesis using entry Some by (simp only: fst_scan_tables_Cons)
  qed
qed

lemma scan_schemas_distinct:
  "(\<And>s t. distinct (map name (unified_columns od s t)))
   \<Longrightarrow> distinct (map name (unified_columns (fst (scan_schemas f od catalog)) s t))"
proof (induction catalog arbitrary: od)
  case Nil
  then show ?case by simp
next
  case (Cons entry rest)
  obtain schema d where entry: "entry = (schema, d)" by (cases entry)
  show ?case
  proof (cases d)
    case None
    then show ?thesis using entry Cons.prems [of s t] Cons.prems [of schema t]
      by (simp only: fst_scan_schemas_None) (simp add: unified_columns_def get_or_empty_update)
  next
    case (Some ts)
    let ?od1 = "AList.update schema (fst (scan_tables f (get_or_empty od schema) ts)) od"
    have 1: "\<And>s t. distinct (map name (unified_columns ?od1 s t))"
    proof -
      fix s' t'
      have "\<And>t. distinct (map name (get_or_empty (get_or_empty od schema) t))"
        using Cons.prems by (simp add: unified_columns_def)
      then have "distinct (map name (get_or_empty (fst (scan_tables f (get_or_empty od schema) ts)) t'))"
        by (rule scan_tables_distinct)
      then show "distinct (map name (unified_columns ?od1 s' t'))"
        using Cons.prems [of s' t'] by (simp add: unified_columns_def get_or_empty_update)
    qed
    then have 2: "distinct (map name (unified_columns (fst (scan_schemas f ?od1 rest)) s t))"
      by (rule Cons.IH)
    show ?thesis using entry Some 1 [of s t] 2
      by (simp only: fst_scan_schemas_Some split: if_splits) simp
  qed
qed

lemma scan_file_distinct:
  "(\<And>s t. distinct (map name (unified_columns od s t)))
   \<Longrightarrow> distinct (map name (unified_columns (fst (scan_file dir od f)) s t))"
  by (auto simp: fst_scan_file scan_schemas_distinct split: option.splits)

lemma scan_distinct:
  "(\<And>s t. distinct (map name (unified_columns od s t)))
   \<Longrightarrow> distinct (map name (unified_columns (fst (scan dir od files)) s t))"
proof (induction files arbitrary: od)
  case Nil
  then show ?case by simp
next
  case (Cons f files)
  have "\<And>s t. distinct (map name (unified_columns (fst (scan_file dir od f)) s t))"
    using Cons.prems by (rule scan_file_distinct)
  then show ?case unfolding fst_scan_Cons by (rule Cons.IH)
qed

text \<open>
  Claim C1. After the scan of all files of the worklist, started from the empty
  \<^verbatim>\<open>output_dict\<close>, the names of the unified columns of every (schema, table) pair are
  exactly the names of the columns seen for that pair in the files of the worklist (the
  columns of the table definitions the scan reads). Every name is there once, and the
  unified columns after a part of the worklist stay, in their order, at the head of the
  unified columns after the rest: a column, once present, is never removed.
\<close>

theorem unified_columns_superset:
  "set (map name (unified_columns (fst (scan dir [] files)) schema table))
     = (\<Union>hyper_file \<in> set files. set (map name (columns_seen dir hyper_file schema table)))
   \<and> distinct (map name (unified_columns (fst (scan dir [] files)) schema table))
   \<and> prefix (unified_columns (fst (scan dir [] files)) schema table)
            (unified_columns (fst (scan dir [] (files @ later))) schema table)"
proof (intro conjI)
  show "set (map name (unified_columns (fst (scan dir [] files)) schema table))
     = (\<Union>hyper_file \<in> set files. set (map name (columns_seen dir hyper_file schema table)))"
    using scan_names [of dir "[]" files schema table] by (simp add: unified_columns_def)
  show "distinct (map name (unified_columns (fst (scan dir [] files)) schema table))"
    by (rule scan_distinct) (simp add: unified_columns_def)
  show "prefix (unified_columns (fst (scan dir [] files)) schema table)
            (unified_columns (fst (scan dir [] (files @ later))) schema table)"
    unfolding fst_scan_append by (rule scan_prefix)
qed

section \<open>What a run connects to and logs\<close>

lemma connects_append: "connects (xs @ ys) = connects xs @ connects ys"
  by (induction xs rule: connects.induct) auto

lemma read_problems_append: "read_problems (xs @ ys) = read_problems xs @ read_problems ys"
  by (induction xs rule: read_problems.induct) auto

lemma conflicts_only:
  "list_all is_conflict log \<Longrightarrow> connects log = [] \<and> read_problems log = []
     \<and> Create_table s t columns \<notin> set log"
  by (induction log rule: connects.induct) (auto simp: is_conflict_def)

lemma scan_column_log:
  "scan_column f cols c = Inr (cols', log) \<Longrightarrow> list_all is_conflict log"
  by (auto simp: scan_column_def is_conflict_def split: if_splits list.splits)

lemma scan_columns_log: "list_all is_conflict (fst (snd (scan_columns f cols columns)))"
proof (induction columns arbitrary: cols)
  case Nil
  show ?case by simp
next
  case (Cons c cs)
  obtain cols1 log1 where 1: "scan_column f cols c = Inr (cols1, log1)"
    using scan_column_prefix by blast
  obtain cols2 log2 r where 2: "scan_columns f cols1 cs = (cols2, log2, r)"
    by (cases "scan_columns f cols1 cs") auto
  have "list_all is_conflict log2" using Cons.IH [of cols1] 2 by simp
  then show ?case using 1 2 scan_column_log [OF 1] by simp
qed

lemma scan_tables_log: "list_all is_conflict (fst (snd (scan_tables f tabs ts)))"
proof (induction ts arbitrary: tabs)
  case Nil
  show ?case by simp
next
  case (Cons entry rest)
  obtain table d where entry: "entry = (table, d)" by (cases entry)
  show ?case
  proof (cases d)
    case None
    then show ?thesis using entry by simp
  next
    case (Some columns)
    obtain cols log1 where 1: "scan_columns f (get_or_empty tabs table) columns = (cols, log1, None)"
      using scan_columns_names by blast
    obtain tabs2 log2 r where 2: "scan_tables f (AList.update table cols tabs) rest = (tabs2, log2, r)"
      by (cases "scan_tables f (AList.update table cols tabs) rest") auto
    have "list_all is_conflict log1"
      using scan_columns_log [of f "get_or_empty tabs table" columns] 1 by simp
    moreover have "list_all is_conflict log2"
      using Cons.IH [of "AList.update table cols tabs"] 2 by simp
    ultimately show ?thesis using entry Some 1 2 by simp
  qed
qed

lemma scan_schemas_log:
  "list_all is_conflict (fst (snd (scan_schemas f od catalog)))
   \<and> (snd (snd (scan_schemas f od catalog)) = None \<longleftrightarrow> catalog_ok catalog)"
proof (induction catalog arbitrary: od)
  case Nil
  show ?case by simp
next
  case (Cons entry rest)
  obtain schema d where entry: "entry = (schema, d)" by (cases entry)
  show ?case
  proof (cases d)
    case None
    then show ?thesis using entry by simp
  next
    case (Some ts)
    obtain tabs log1 r1 where 1: "scan_tables f (get_or_empty od schema) ts = (tabs, log1, r1)"
      and r1: "r1 = None \<longleftrightarrow> tables_ok ts"
      using scan_tables_names by blast
    have l1: "list_all is_conflict log1"
      using scan_tables_log [of f "get_or_empty od schema" ts] 1 by simp
    show ?thesis
    proof (cases r1)
      case None
      obtain od2 log2 r where 2: "scan_schemas f (AList.update schema tabs od) rest = (od2, log2, r)"
        by (cases "scan_schemas f (AList.update schema tabs od) rest") auto
      have "list_all is_conflict log2 \<and> (r = None \<longleftrightarrow> catalog_ok rest)"
        using Cons.IH [of "AList.update schema tabs od"] 2 by simp
      then show ?thesis using entry Some 1 2 None r1 l1 by simp
    next
      case (Some e)
      then show ?thesis using entry \<open>d = Some ts\<close> 1 r1 l1 by simp
    qed
  qed
qed

lemma snd_scan_file:
  "\<exists>log. list_all is_conflict log
     \<and> snd (scan_file dir od f)
       = (case dir f of
            None \<Rightarrow> [Connect f, Read_problem f, Closed f]
          | Some None \<Rightarrow> [Connect f, Processing f, Read_problem f, Closed f]
          | Some (Some catalog) \<Rightarrow>
              [Connect f, Processing f] @ log
              @ (if catalog_ok catalog then [Closed f] else [Read_problem f, Closed f]))"
proof (cases "\<exists>catalog. dir f = Some (Some catalog)")
  case False
  then show ?thesis by (auto simp: scan_file_def split: option.splits intro: exI [of _ "[]"])
next
  case True
  then obtain catalog where Some: "dir f = Some (Some catalog)" by blast
  obtain od' log r where 1: "scan_schemas f od catalog = (od', log, r)"
    by (cases "scan_schemas f od catalog") auto
  have "list_all is_conflict log \<and> (r = None \<longleftrightarrow> catalog_ok catalog)"
    using scan_schemas_log [of f od catalog] 1 by simp
  then show ?thesis using Some 1 by (cases r) (auto simp: scan_file_def)
qed

lemma scan_file_events:
  "connects (snd (scan_file dir od f)) = [f]
   \<and> read_problems (snd (scan_file dir od f)) = (if file_fails dir f then [f] else [])
   \<and> Create_table s t columns \<notin> set (snd (scan_file dir od f))"
proof -
  obtain log where l: "list_all is_conflict log"
    and s: "snd (scan_file dir od f)
       = (case dir f of
            None \<Rightarrow> [Connect f, Read_problem f, Closed f]
          | Some None \<Rightarrow> [Connect f, Processing f, Read_problem f, Closed f]
          | Some (Some catalog) \<Rightarrow>
              [Connect f, Processing f] @ log
              @ (if catalog_ok catalog then [Closed f] else [Read_problem f, Closed f]))"
    using snd_scan_file by blast
  from conflicts_only [OF l] have c: "connects log = []" "read_problems log = []"
    "Create_table s t columns \<notin> set log" by simp_all
  show ?thesis unfolding s using c
    by (simp add: file_fails_def connects_append read_problems_append split: option.splits)
qed

lemma snd_scan_Cons:
  "snd (scan dir od (f # files)) = snd (scan_file dir od f) @ snd (scan dir (fst (scan_file dir od f)) files)"
  by (simp split: prod.splits)

lemma scan_events:
  "connects (snd (scan dir od files)) = files
   \<and> read_problems (snd (scan dir od files)) = [f \<leftarrow> files. file_fails dir f]
   \<and> Create_table s t columns \<notin> set (snd (scan dir od files))"
proof (induction files arbitrary: od)
  case Nil
  show ?case by simp
next
  case (Cons f files)
  show ?case unfolding snd_scan_Cons
    using Cons.IH [of "fst (scan_file dir od f)"] scan_file_events [of dir od f s t columns]
    by (simp add: connects_append read_problems_append)
qed

lemma connects_move_file: "connects (move_file args dir schema table columns hyper_file) = [hyper_file]"
  by (simp add: move_file_def split: option.splits prod.splits)

lemma connects_move_files:
  "connects (concat (map (move_file args dir schema table columns) files)) = files"
  by (induction files) (simp_all add: connects_append connects_move_file)

lemma connects_build_table: "connects (build_table args dir files schema (table, cols)) = files"
  by (simp add: build_table_def Let_def connects_move_files)

lemma connects_build_tables:
  "connects (concat (map (build_table args dir files schema) tabs))
     = concat (replicate (length tabs) files)"
proof (induction tabs)
  case Nil
  show ?case by simp
next
  case (Cons entry tabs)
  obtain table cols where "entry = (table, cols)" by (cases entry)
  then show ?case using Cons by (simp add: connects_append connects_build_table)
qed

lemma connects_build:
  "connects (build args dir files od)
     = concat (replicate (length (concat (map snd od))) files)"
proof (induction od)
  case Nil
  show ?case by (simp add: build_def)
next
  case (Cons entry od)
  obtain schema tabs where e: "entry = (schema, tabs)" by (cases entry)
  have "connects (build args dir files (entry # od))
        = connects (build_schema args dir files entry) @ connects (build args dir files od)"
    by (simp add: build_def connects_append)
  also have "connects (build_schema args dir files entry) = concat (replicate (length tabs) files)"
    using e by (simp add: build_schema_def connects_build_tables)
  finally show ?case using Cons e by (simp add: replicate_add)
qed

text \<open>
  Claim C7 fails as stated: \<^verbatim>\<open>bad.hyper\<close> cannot be opened, its read problem is logged
  in the scan, and the row move connects to it again for the unified table.
\<close>

theorem scan_failure_counterexample:
  \<open>file_fails scenario_directory ''bad.hyper''
   \<and> read_problems (snd (scan scenario_directory [] [''bad.hyper'', ''sales_us.hyper'']))
       = [''bad.hyper'']
   \<and> connects (build scenario_args scenario_directory [''bad.hyper'', ''sales_us.hyper'']
                  (fst (scan scenario_directory [] [''bad.hyper'', ''sales_us.hyper''])))
       = [''bad.hyper'', ''sales_us.hyper'']
   \<and> run scenario_args [''bad.hyper'', ''sales_us.hyper''] scenario_directory =
     [Connect ''bad.hyper'', Read_problem ''bad.hyper'', Closed ''bad.hyper'',
      Connect ''sales_us.hyper'', Processing ''sales_us.hyper'', Closed ''sales_us.hyper'',
      Create_schema ''public'',
      Create_table ''public'' ''sales''
        [id_column\<lparr>nullability := NULLABLE\<rparr>, amount_double\<lparr>nullability := NULLABLE\<rparr>,
         source_file_text],
      Connect ''bad.hyper'', Assimilate_problem ''bad.hyper'',
      Connect ''sales_us.hyper'', Ingesting ''sales_us.hyper'',
      Execute ''sales_us.hyper''
        ''SELECT  "id", "amount", 'sales_us.hyper' as source_file FROM "public"."sales"'']\<close>
  by code_simp

text \<open>
  Claim C7, amended. The scan connects to every file of the worklist once, in order,
  whatever fails: a failure is logged for exactly the files that fail and the files
  after them are still scanned. A file that failed stays in the worklist: for every
  unified table the row move connects again to every file of the worklist, so a run
  connects to each file once for the scan and once for every unified table. A connection
  that raises in the row move is logged and the loop goes on with the next file.
\<close>

theorem scan_failure_policy:
  "connects (snd (scan dir od files)) = files
   \<and> read_problems (snd (scan dir od files)) = [f \<leftarrow> files. file_fails dir f]
   \<and> connects (build_table args dir files schema (table, cols)) = files
   \<and> connects (build args dir files od')
       = concat (replicate (length (concat (map snd od'))) files)
   \<and> (dir f = None \<longrightarrow>
        move_file args dir schema table columns f = [Connect f, Assimilate_problem f])"
proof (intro conjI impI)
  show "connects (snd (scan dir od files)) = files"
    using scan_events [of dir od files] by simp
  show "read_problems (snd (scan dir od files)) = [f \<leftarrow> files. file_fails dir f]"
    using scan_events [of dir od files] by simp
  show "connects (build_table args dir files schema (table, cols)) = files"
    by (rule connects_build_table)
  show "connects (build args dir files od')
       = concat (replicate (length (concat (map snd od'))) files)"
    by (rule connects_build)
  assume "dir f = None"
  then show "move_file args dir schema table columns f = [Connect f, Assimilate_problem f]"
    by (simp add: move_file_def)
qed

text \<open>The file \<^verbatim>\<open>bad.hyper\<close>, which cannot be opened, before a file that can.\<close>

theorem scan_failure_policy_witness:
  "scenario_directory ''bad.hyper'' = None
   \<and> move_file scenario_args scenario_directory ''public'' ''sales'' [id_column] ''bad.hyper''
       = [Connect ''bad.hyper'', Assimilate_problem ''bad.hyper'']
   \<and> connects (snd (scan scenario_directory [] [''bad.hyper'', ''sales_us.hyper'']))
       = [''bad.hyper'', ''sales_us.hyper'']
   \<and> read_problems (snd (scan scenario_directory [] [''bad.hyper'', ''sales_us.hyper'']))
       = [''bad.hyper'']"
proof -
  have n: "scenario_directory ''bad.hyper'' = None"
    by (simp add: scenario_directory_def)
  have f: "[f \<leftarrow> [''bad.hyper'', ''sales_us.hyper'']. file_fails scenario_directory f] = [''bad.hyper'']"
    by code_simp
  from scan_failure_policy [of scenario_directory "[]" "[''bad.hyper'', ''sales_us.hyper'']"
      scenario_args "''public''" "''sales''" "[]" "[]" "''bad.hyper''" "[id_column]"] n f
  show ?thesis by simp
qed

lemma create_table_move_file:
  "Create_table s t columns \<notin> set (move_file args dir schema table cols hyper_file)"
  by (simp add: move_file_def split: option.splits prod.splits)

lemma create_table_build_table:
  "Create_table s t columns \<in> set (build_table args dir files schema entry)
   \<Longrightarrow> columns = table_definition_columns (add_source_file_column args (snd entry))"
  by (cases entry) (auto simp: build_table_def Let_def create_table_move_file)

lemma create_table_build:
  "Create_table s t columns \<in> set (build args dir files od)
   \<Longrightarrow> \<exists>cols. columns = table_definition_columns (add_source_file_column args cols)"
  by (auto simp: build_def build_schema_def dest: create_table_build_table)

lemma nullable_table_definition:
  "map nullability (table_definition_columns cols) = replicate (length cols) NULLABLE"
  by (induction cols) (simp_all add: table_definition_columns_def)

lemma run_eq:
  "run args hyper_files dir
     = snd (scan dir [] (worklist_of args hyper_files))
       @ build args dir (worklist_of args hyper_files)
           (fst (scan dir [] (worklist_of args hyper_files)))"
  by (cases "scan dir [] (worklist_of args hyper_files)") (simp add: run_def)

text \<open>
  Claim C4. Every column of every table definition that a run hands to the engine for
  creation is nullable, whatever the sources declared. The source file column is
  specified not nullable at line 122 and is nullable, like the others, in the table
  definition.
\<close>

theorem output_columns_nullable:
  "(Create_table schema table columns \<in> set (run args hyper_files dir)
      \<longrightarrow> map nullability columns = replicate (length columns) NULLABLE)
   \<and> nullability (source_file_column args) = NOT_NULLABLE
   \<and> map nullability (table_definition_columns (cols @ [source_file_column args]))
       = replicate (Suc (length cols)) NULLABLE"
proof (intro conjI impI)
  assume "Create_table schema table columns \<in> set (run args hyper_files dir)"
  then have "Create_table schema table columns
      \<in> set (build args dir (worklist_of args hyper_files)
                (fst (scan dir [] (worklist_of args hyper_files))))"
    using scan_events [of dir "[]" "worklist_of args hyper_files" schema table columns]
    by (simp add: run_eq)
  then obtain cols where "columns = table_definition_columns (add_source_file_column args cols)"
    using create_table_build by blast
  then show "map nullability columns = replicate (length columns) NULLABLE"
    using nullable_table_definition [of "add_source_file_column args cols"]
    by (simp add: table_definition_columns_def)
next
  show "nullability (source_file_column args) = NOT_NULLABLE"
    by (simp add: source_file_column_def)
next
  show "map nullability (table_definition_columns (cols @ [source_file_column args]))
       = replicate (Suc (length cols)) NULLABLE"
    using nullable_table_definition [of "cols @ [source_file_column args]"] by simp
qed

text \<open>The two sales files: \<^verbatim>\<open>id\<close> is not nullable in both sources.\<close>

theorem output_columns_nullable_witness:
  "Create_table ''public'' ''sales''
      [id_column\<lparr>nullability := NULLABLE\<rparr>, amount_double\<lparr>nullability := NULLABLE\<rparr>,
       vat_double, source_file_text]
     \<in> set (run scenario_args [''sales_us.hyper'', ''sales_eu.hyper'', ''union.hyper''] scenario_directory)
   \<and> map nullability
        [id_column\<lparr>nullability := NULLABLE\<rparr>, amount_double\<lparr>nullability := NULLABLE\<rparr>,
         vat_double, source_file_text]
      = [NULLABLE, NULLABLE, NULLABLE, NULLABLE]
   \<and> nullability id_column = NOT_NULLABLE"
proof -
  have m: "Create_table ''public'' ''sales''
      [id_column\<lparr>nullability := NULLABLE\<rparr>, amount_double\<lparr>nullability := NULLABLE\<rparr>,
       vat_double, source_file_text]
     \<in> set (run scenario_args [''sales_us.hyper'', ''sales_eu.hyper'', ''union.hyper''] scenario_directory)"
    by code_simp
  from output_columns_nullable [of "''public''" "''sales''"
      "[id_column\<lparr>nullability := NULLABLE\<rparr>, amount_double\<lparr>nullability := NULLABLE\<rparr>,
       vat_double, source_file_text]" scenario_args
      "[''sales_us.hyper'', ''sales_eu.hyper'', ''union.hyper'']" scenario_directory] m
  show ?thesis by (simp add: id_column_def)
qed

section \<open>The scan is the first-seen fold of the columns seen\<close>

text \<open>
  Loop by loop: the columns of a table, the tables of a schema, the schemas of a file, the
  files of the worklist. At every level the unified columns after the loop are the fold
  of the columns seen, and the conflicts logged are the conflicts of the fold.
\<close>

lemma find_append:
  "find P (xs @ ys) = (case find P xs of None \<Rightarrow> find P ys | Some x \<Rightarrow> Some x)"
  by (induction xs) auto

lemma find_name_None: "n \<notin> set (map name cols) \<Longrightarrow> find (\<lambda>c. name c = n) cols = None"
  by (induction cols) auto

lemma find_name_in: "find (\<lambda>c. name c = n) cols = Some m \<Longrightarrow> n \<in> set (map name cols)"
  by (induction cols) (auto split: if_splits)

lemma first_seen_append: "first_seen cols (xs @ ys) = first_seen (first_seen cols xs) ys"
  by (induction xs arbitrary: cols) simp_all

lemma conflict_reports_append:
  "conflict_reports cols (xs @ ys)
     = conflict_reports cols xs @ conflict_reports (first_seen cols (map fst xs)) ys"
proof (induction xs arbitrary: cols)
  case Nil
  show ?case by simp
next
  case (Cons p xs)
  obtain c f where p: "p = (c, f)" by (cases p)
  show ?case
  proof (cases "find (\<lambda>x. name x = name c) cols")
    case None
    then have "name c \<notin> set (map name cols)"
      using find_name_Some [of "name c" cols] by auto
    then show ?thesis using None p Cons.IH [of "cols @ [c]"] by simp
  next
    case (Some m)
    then have "name c \<in> set (map name cols)" by (rule find_name_in)
    then show ?thesis using Some p Cons.IH [of cols] by simp
  qed
qed

lemma scan_columns_first_seen:
  "scan_columns f cols columns
     = (first_seen cols columns, conflict_reports cols (map (\<lambda>c. (c, f)) columns), None)"
proof (induction columns arbitrary: cols)
  case Nil
  show ?case by simp
next
  case (Cons c cs)
  show ?case
  proof (cases "name c \<in> set (map name cols)")
    case True
    then obtain m where m: "find (\<lambda>x. name x = name c) cols = Some m"
      using find_name_Some by blast
    then show ?thesis using True Cons.IH [of cols]
      by (simp add: scan_column_existing)
  next
    case False
    then show ?thesis using Cons.IH [of "cols @ [c]"]
      by (simp add: scan_column_new find_name_None)
  qed
qed

lemma map_fst_pair: "map (fst \<circ> (\<lambda>c. (c, f))) xs = xs"
  by (induction xs) auto

lemma conflict_reports_pair_append:
  "conflict_reports cols (map (\<lambda>c. (c, f)) xs @ ys)
     = conflict_reports cols (map (\<lambda>c. (c, f)) xs) @ conflict_reports (first_seen cols xs) ys"
  by (simp add: conflict_reports_append map_fst_pair)

lemma columns_of_simps [simp]:
  "columns_of [] t = []"
  "columns_of ((t', cols) # xs) t = (if t' = t then cols else []) @ columns_of xs t"
  by (simp_all add: columns_of_def)

lemma scan_tables_first_seen:
  "\<exists>tabs' log r. scan_tables f tabs ts = (tabs', log, r)
      \<and> (\<forall>t. get_or_empty tabs' t
               = first_seen (get_or_empty tabs t) (columns_of (tables_seen ts) t)
             \<and> set (conflict_reports (get_or_empty tabs t)
                       (map (\<lambda>c. (c, f)) (columns_of (tables_seen ts) t)))
                 \<subseteq> set log)"
proof (induction ts arbitrary: tabs)
  case Nil
  show ?case by simp
next
  case (Cons entry rest)
  obtain table d where entry: "entry = (table, d)" by (cases entry)
  show ?case
  proof (cases d)
    case None
    then show ?thesis using entry by (simp add: get_or_empty_update)
  next
    case (Some columns)
    let ?cols = "first_seen (get_or_empty tabs table) columns"
    let ?log1 = "conflict_reports (get_or_empty tabs table) (map (\<lambda>c. (c, f)) columns)"
    let ?tabs1 = "AList.update table ?cols tabs"
    obtain tabs' log2 r where 2: "scan_tables f ?tabs1 rest = (tabs', log2, r)"
      and ih: "\<forall>t. get_or_empty tabs' t
               = first_seen (get_or_empty ?tabs1 t) (columns_of (tables_seen rest) t)
             \<and> set (conflict_reports (get_or_empty ?tabs1 t)
                       (map (\<lambda>c. (c, f)) (columns_of (tables_seen rest) t)))
                 \<subseteq> set log2"
      using Cons.IH by blast
    have s: "scan_tables f tabs (entry # rest) = (tabs', ?log1 @ log2, r)"
      using entry Some 2 by (simp add: scan_columns_first_seen)
    have "\<forall>t. get_or_empty tabs' t
               = first_seen (get_or_empty tabs t) (columns_of (tables_seen (entry # rest)) t)
             \<and> set (conflict_reports (get_or_empty tabs t)
                       (map (\<lambda>c. (c, f)) (columns_of (tables_seen (entry # rest)) t)))
                 \<subseteq> set (?log1 @ log2)"
    proof
      fix t
      show "get_or_empty tabs' t
               = first_seen (get_or_empty tabs t) (columns_of (tables_seen (entry # rest)) t)
             \<and> set (conflict_reports (get_or_empty tabs t)
                       (map (\<lambda>c. (c, f)) (columns_of (tables_seen (entry # rest)) t)))
                 \<subseteq> set (?log1 @ log2)"
      proof (cases "t = table")
        case True
        show ?thesis using ih [rule_format, of t] True entry Some
          by (auto simp: get_or_empty_update first_seen_append conflict_reports_pair_append)
      next
        case False
        then show ?thesis using ih [rule_format, of t] entry Some
          by (auto simp: get_or_empty_update)
      qed
    qed
    with s show ?thesis by blast
  qed
qed

lemma catalog_columns_entries:
  "concat (map (\<lambda>(s, t, columns). if s = schema \<and> t = table then columns else [])
               (map (\<lambda>entry. (schema', entry)) xs))
   = (if schema' = schema then columns_of xs table else [])"
  by (induction xs) (auto simp: columns_of_def)

lemma catalog_columns_simps:
  "catalog_columns [] s t = []"
  "catalog_columns ((schema, None) # rest) s t = []"
  "catalog_columns ((schema, Some ts) # rest) s t =
     (if schema = s then columns_of (tables_seen ts) t else [])
     @ (if tables_ok ts then catalog_columns rest s t else [])"
  using catalog_columns_entries [of s t schema "tables_seen ts"]
  by (auto simp: catalog_columns_def)

lemma scan_schemas_first_seen:
  "\<exists>od' log r. scan_schemas f od catalog = (od', log, r)
      \<and> (\<forall>s t. unified_columns od' s t
               = first_seen (unified_columns od s t) (catalog_columns catalog s t)
             \<and> set (conflict_reports (unified_columns od s t)
                       (map (\<lambda>c. (c, f)) (catalog_columns catalog s t)))
                 \<subseteq> set log)"
proof (induction catalog arbitrary: od)
  case Nil
  show ?case by (simp add: catalog_columns_simps)
next
  case (Cons entry rest)
  obtain schema d where entry: "entry = (schema, d)" by (cases entry)
  show ?case
  proof (cases d)
    case None
    then show ?thesis using entry
      by (auto simp: catalog_columns_simps unified_columns_def get_or_empty_update)
  next
    case (Some ts)
    obtain tabs log1 r1 where 1: "scan_tables f (get_or_empty od schema) ts = (tabs, log1, r1)"
      and r1: "r1 = None \<longleftrightarrow> tables_ok ts"
      using scan_tables_names by blast
    have t1: "\<forall>t. get_or_empty tabs t
               = first_seen (get_or_empty (get_or_empty od schema) t) (columns_of (tables_seen ts) t)
             \<and> set (conflict_reports (get_or_empty (get_or_empty od schema) t)
                       (map (\<lambda>c. (c, f)) (columns_of (tables_seen ts) t)))
                 \<subseteq> set log1"
      using scan_tables_first_seen [of f "get_or_empty od schema" ts] 1 by simp
    let ?od1 = "AList.update schema tabs od"
    have u1: "\<And>s t. unified_columns ?od1 s t
               = first_seen (unified_columns od s t)
                   (if schema = s then columns_of (tables_seen ts) t else [])"
      using t1 by (auto simp: unified_columns_def get_or_empty_update)
    have l1: "\<And>s t. set (conflict_reports (unified_columns od s t)
                       (map (\<lambda>c. (c, f)) (if schema = s then columns_of (tables_seen ts) t else [])))
                 \<subseteq> set log1"
      using t1 by (auto simp: unified_columns_def)
    show ?thesis
    proof (cases r1)
      case None
      obtain od' log2 r where 2: "scan_schemas f ?od1 rest = (od', log2, r)"
        and ih: "\<forall>s t. unified_columns od' s t
               = first_seen (unified_columns ?od1 s t) (catalog_columns rest s t)
             \<and> set (conflict_reports (unified_columns ?od1 s t)
                       (map (\<lambda>c. (c, f)) (catalog_columns rest s t)))
                 \<subseteq> set log2"
        using Cons.IH by blast
      have s: "scan_schemas f od (entry # rest) = (od', log1 @ log2, r)"
        using entry Some 1 2 None by simp
      have "\<forall>s t. unified_columns od' s t
               = first_seen (unified_columns od s t) (catalog_columns (entry # rest) s t)
             \<and> set (conflict_reports (unified_columns od s t)
                       (map (\<lambda>c. (c, f)) (catalog_columns (entry # rest) s t)))
                 \<subseteq> set (log1 @ log2)"
      proof (intro allI)
        fix s t
        have ok: "tables_ok ts" using r1 None by simp
        show "unified_columns od' s t
               = first_seen (unified_columns od s t) (catalog_columns (entry # rest) s t)
             \<and> set (conflict_reports (unified_columns od s t)
                       (map (\<lambda>c. (c, f)) (catalog_columns (entry # rest) s t)))
                 \<subseteq> set (log1 @ log2)"
          using ih [rule_format, of s t] u1 [of s t] l1 [of s t] entry Some ok
          by (auto simp: catalog_columns_simps first_seen_append conflict_reports_pair_append)
      qed
      with s show ?thesis by blast
    next
      case (Some e)
      have s: "scan_schemas f od (entry # rest) = (?od1, log1, Some e)"
        using entry \<open>d = Some ts\<close> 1 Some by simp
      have nok: "\<not> tables_ok ts" using r1 Some by simp
      have "\<forall>s t. unified_columns ?od1 s t
               = first_seen (unified_columns od s t) (catalog_columns (entry # rest) s t)
             \<and> set (conflict_reports (unified_columns od s t)
                       (map (\<lambda>c. (c, f)) (catalog_columns (entry # rest) s t)))
                 \<subseteq> set log1"
        using u1 l1 entry \<open>d = Some ts\<close> nok by (simp add: catalog_columns_simps)
      with s show ?thesis by blast
    qed
  qed
qed

lemma log_scan_tables_None:
  "fst (snd (scan_tables f tabs ((table, None) # rest))) = []"
  by simp

lemma log_scan_tables_Some:
  "fst (snd (scan_tables f tabs ((table, Some columns) # rest)))
     = conflict_reports (get_or_empty tabs table) (map (\<lambda>c. (c, f)) columns)
       @ fst (snd (scan_tables f
                (AList.update table (first_seen (get_or_empty tabs table) columns) tabs) rest))"
  by (simp add: scan_columns_first_seen split: prod.splits)

lemma scan_tables_reports:
  "e \<in> set (fst (snd (scan_tables f tabs ts)))
   \<Longrightarrow> \<exists>t. e \<in> set (conflict_reports (get_or_empty tabs t)
                      (map (\<lambda>c. (c, f)) (columns_of (tables_seen ts) t)))"
proof (induction ts arbitrary: tabs)
  case Nil
  then show ?case by simp
next
  case (Cons entry rest)
  obtain table d where entry: "entry = (table, d)" by (cases entry)
  show ?case
  proof (cases d)
    case None
    with Cons.prems entry show ?thesis by simp
  next
    case (Some columns)
    let ?cols = "first_seen (get_or_empty tabs table) columns"
    let ?log1 = "conflict_reports (get_or_empty tabs table) (map (\<lambda>c. (c, f)) columns)"
    let ?tabs1 = "AList.update table ?cols tabs"
    from Cons.prems entry Some
    have "e \<in> set ?log1 \<or> e \<in> set (fst (snd (scan_tables f ?tabs1 rest)))"
      by (simp only: log_scan_tables_Some set_append Un_iff)
    then show ?thesis
    proof
      assume "e \<in> set ?log1"
      then have "e \<in> set (conflict_reports (get_or_empty tabs table)
                      (map (\<lambda>c. (c, f)) (columns_of (tables_seen (entry # rest)) table)))"
        using entry Some by (simp add: conflict_reports_pair_append)
      then show ?thesis by blast
    next
      assume "e \<in> set (fst (snd (scan_tables f ?tabs1 rest)))"
      then obtain t where t: "e \<in> set (conflict_reports (get_or_empty ?tabs1 t)
                      (map (\<lambda>c. (c, f)) (columns_of (tables_seen rest) t)))"
        using Cons.IH by blast
      have "e \<in> set (conflict_reports (get_or_empty tabs t)
                      (map (\<lambda>c. (c, f)) (columns_of (tables_seen (entry # rest)) t)))"
        using t entry Some
        by (cases "t = table") (simp_all add: get_or_empty_update conflict_reports_pair_append)
      then show ?thesis by blast
    qed
  qed
qed

lemma log_scan_schemas_None:
  "fst (snd (scan_schemas f od ((schema, None) # rest))) = []"
  by simp

lemma log_scan_schemas_Some:
  "fst (snd (scan_schemas f od ((schema, Some ts) # rest)))
     = fst (snd (scan_tables f (get_or_empty od schema) ts))
       @ (if tables_ok ts
          then fst (snd (scan_schemas f
                 (AList.update schema (fst (scan_tables f (get_or_empty od schema) ts)) od) rest))
          else [])"
proof -
  obtain tabs log1 r1 where 1: "scan_tables f (get_or_empty od schema) ts = (tabs, log1, r1)"
    and r1: "r1 = None \<longleftrightarrow> tables_ok ts"
    using scan_tables_names by blast
  show ?thesis
  proof (cases r1)
    case None
    then show ?thesis using 1 r1 by (simp split: prod.splits)
  next
    case (Some e)
    then show ?thesis using 1 r1 by simp
  qed
qed

lemma scan_schemas_reports:
  "e \<in> set (fst (snd (scan_schemas f od catalog)))
   \<Longrightarrow> \<exists>s t. e \<in> set (conflict_reports (unified_columns od s t)
                        (map (\<lambda>c. (c, f)) (catalog_columns catalog s t)))"
proof (induction catalog arbitrary: od)
  case Nil
  then show ?case by simp
next
  case (Cons entry rest)
  obtain schema d where entry: "entry = (schema, d)" by (cases entry)
  show ?case
  proof (cases d)
    case None
    with Cons.prems entry show ?thesis by simp
  next
    case (Some ts)
    let ?tabs = "fst (scan_tables f (get_or_empty od schema) ts)"
    let ?od1 = "AList.update schema ?tabs od"
    have t1: "\<And>t. get_or_empty ?tabs t
               = first_seen (unified_columns od schema t) (columns_of (tables_seen ts) t)"
      using scan_tables_first_seen [of f "get_or_empty od schema" ts]
      by (auto simp: unified_columns_def)
    from Cons.prems entry Some
    have "e \<in> set (fst (snd (scan_tables f (get_or_empty od schema) ts)))
          \<or> tables_ok ts \<and> e \<in> set (fst (snd (scan_schemas f ?od1 rest)))"
      by (simp only: log_scan_schemas_Some set_append Un_iff) (simp split: if_splits)
    then show ?thesis
    proof
      assume "e \<in> set (fst (snd (scan_tables f (get_or_empty od schema) ts)))"
      then obtain t where "e \<in> set (conflict_reports (get_or_empty (get_or_empty od schema) t)
                      (map (\<lambda>c. (c, f)) (columns_of (tables_seen ts) t)))"
        using scan_tables_reports by blast
      then have "e \<in> set (conflict_reports (unified_columns od schema t)
                        (map (\<lambda>c. (c, f)) (catalog_columns (entry # rest) schema t)))"
        using entry Some
        by (simp add: unified_columns_def catalog_columns_simps conflict_reports_pair_append)
      then show ?thesis by blast
    next
      assume a: "tables_ok ts \<and> e \<in> set (fst (snd (scan_schemas f ?od1 rest)))"
      then obtain s t where st: "e \<in> set (conflict_reports (unified_columns ?od1 s t)
                        (map (\<lambda>c. (c, f)) (catalog_columns rest s t)))"
        using Cons.IH by blast
      have "e \<in> set (conflict_reports (unified_columns od s t)
                        (map (\<lambda>c. (c, f)) (catalog_columns (entry # rest) s t)))"
      proof (cases "s = schema")
        case True
        have "unified_columns ?od1 s t
              = first_seen (unified_columns od s t) (columns_of (tables_seen ts) t)"
          using True t1 [of t] by (simp add: unified_columns_def get_or_empty_update)
        then show ?thesis using st a True entry Some
          by (simp add: catalog_columns_simps conflict_reports_pair_append)
      next
        case False
        then have "unified_columns ?od1 s t = unified_columns od s t"
          by (simp add: unified_columns_def get_or_empty_update)
        then show ?thesis using st a False entry Some
          by (simp add: catalog_columns_simps)
      qed
      then show ?thesis by blast
    qed
  qed
qed

lemma columns_seen_catalog:
  "dir f = Some (Some catalog) \<Longrightarrow> columns_seen dir f s t = catalog_columns catalog s t"
  by (simp add: columns_seen_def catalog_columns_def)

lemma columns_seen_none:
  "\<not> (\<exists>catalog. dir f = Some (Some catalog)) \<Longrightarrow> columns_seen dir f s t = []"
  by (auto simp: columns_seen_def split: option.splits)

lemma scan_file_first_seen:
  "unified_columns (fst (scan_file dir od f)) s t
     = first_seen (unified_columns od s t) (columns_seen dir f s t)"
proof (cases "\<exists>catalog. dir f = Some (Some catalog)")
  case False
  then show ?thesis
    by (auto simp: fst_scan_file columns_seen_none split: option.splits)
next
  case True
  then obtain catalog where Some: "dir f = Some (Some catalog)" by blast
  then show ?thesis using scan_schemas_first_seen [of f od catalog]
    by (auto simp: fst_scan_file columns_seen_catalog)
qed

lemma log_scan_file:
  "dir f = Some (Some catalog)
   \<Longrightarrow> set (snd (scan_file dir od f))
        = set (fst (snd (scan_schemas f od catalog)))
          \<union> (if catalog_ok catalog then {Connect f, Processing f, Closed f}
              else {Connect f, Processing f, Read_problem f, Closed f})"
proof -
  assume Some: "dir f = Some (Some catalog)"
  obtain od' log r where 1: "scan_schemas f od catalog = (od', log, r)"
    by (cases "scan_schemas f od catalog") auto
  have "r = None \<longleftrightarrow> catalog_ok catalog"
    using scan_schemas_log [of f od catalog] 1 by simp
  then show ?thesis using Some 1 by (cases r) (auto simp: scan_file_def)
qed

lemma scan_file_conflicts:
  "Conflict c m g \<in> set (snd (scan_file dir od f))
   \<longleftrightarrow> (\<exists>catalog. dir f = Some (Some catalog)
          \<and> Conflict c m g \<in> set (fst (snd (scan_schemas f od catalog))))"
proof (cases "\<exists>catalog. dir f = Some (Some catalog)")
  case False
  then show ?thesis by (auto simp: scan_file_def split: option.splits)
next
  case True
  then obtain catalog where Some: "dir f = Some (Some catalog)" by blast
  then show ?thesis by (simp add: log_scan_file)
qed

lemma scan_file_reports:
  "set (conflict_reports (unified_columns od s t) (map (\<lambda>c. (c, f)) (columns_seen dir f s t)))
     \<subseteq> set (snd (scan_file dir od f))"
proof (cases "\<exists>catalog. dir f = Some (Some catalog)")
  case False
  then show ?thesis by (simp add: columns_seen_none)
next
  case True
  then obtain catalog where Some: "dir f = Some (Some catalog)" by blast
  obtain od' log r where 1: "scan_schemas f od catalog = (od', log, r)"
    and 2: "\<forall>s t. unified_columns od' s t
               = first_seen (unified_columns od s t) (catalog_columns catalog s t)
             \<and> set (conflict_reports (unified_columns od s t)
                       (map (\<lambda>c. (c, f)) (catalog_columns catalog s t)))
                 \<subseteq> set log"
    using scan_schemas_first_seen by blast
  have "set (conflict_reports (unified_columns od s t)
               (map (\<lambda>c. (c, f)) (catalog_columns catalog s t)))
        \<subseteq> set (fst (snd (scan_schemas f od catalog)))"
    using 1 2 by simp
  then show ?thesis using Some by (auto simp: log_scan_file columns_seen_catalog)
qed

lemma scan_file_reported:
  "Conflict c m g \<in> set (snd (scan_file dir od f))
   \<Longrightarrow> \<exists>s t. Conflict c m g
             \<in> set (conflict_reports (unified_columns od s t)
                      (map (\<lambda>c. (c, f)) (columns_seen dir f s t)))"
proof -
  assume "Conflict c m g \<in> set (snd (scan_file dir od f))"
  then obtain catalog where Some: "dir f = Some (Some catalog)"
    and "Conflict c m g \<in> set (fst (snd (scan_schemas f od catalog)))"
    using scan_file_conflicts by blast
  then obtain s t where "Conflict c m g
             \<in> set (conflict_reports (unified_columns od s t)
                      (map (\<lambda>c. (c, f)) (catalog_columns catalog s t)))"
    using scan_schemas_reports by blast
  then show ?thesis using Some by (auto simp: columns_seen_catalog)
qed

lemma seen_pairs_simps:
  "seen_pairs dir [] s t = []"
  "seen_pairs dir (f # files) s t
     = map (\<lambda>c. (c, f)) (columns_seen dir f s t) @ seen_pairs dir files s t"
  by (simp_all add: seen_pairs_def)

lemma map_fst_seen_pairs:
  "map fst (seen_pairs dir files s t) = concat (map (\<lambda>f. columns_seen dir f s t) files)"
  by (induction files) (simp_all add: seen_pairs_simps map_fst_pair)

lemma scan_first_seen:
  "unified_columns (fst (scan dir od files)) s t
     = first_seen (unified_columns od s t) (map fst (seen_pairs dir files s t))"
proof (induction files arbitrary: od)
  case Nil
  show ?case by (simp add: seen_pairs_simps)
next
  case (Cons f files)
  show ?case unfolding fst_scan_Cons
    using Cons.IH [of "fst (scan_file dir od f)"]
    by (simp add: seen_pairs_simps scan_file_first_seen first_seen_append map_fst_pair)
qed

lemma scan_reports:
  "set (conflict_reports (unified_columns od s t) (seen_pairs dir files s t))
     \<subseteq> set (snd (scan dir od files))"
proof (induction files arbitrary: od)
  case Nil
  show ?case by (simp add: seen_pairs_simps)
next
  case (Cons f files)
  show ?case unfolding snd_scan_Cons
    using Cons.IH [of "fst (scan_file dir od f)"] scan_file_reports [of od s t f dir]
    by (auto simp: seen_pairs_simps conflict_reports_pair_append scan_file_first_seen)
qed

lemma scan_reported:
  "Conflict c m g \<in> set (snd (scan dir od files))
   \<Longrightarrow> \<exists>s t. Conflict c m g
             \<in> set (conflict_reports (unified_columns od s t) (seen_pairs dir files s t))"
proof (induction files arbitrary: od)
  case Nil
  then show ?case by simp
next
  case (Cons f files)
  from Cons.prems
  have "Conflict c m g \<in> set (snd (scan_file dir od f))
        \<or> Conflict c m g \<in> set (snd (scan dir (fst (scan_file dir od f)) files))"
    by (simp only: snd_scan_Cons set_append Un_iff)
  then show ?case
  proof
    assume "Conflict c m g \<in> set (snd (scan_file dir od f))"
    then obtain s t where "Conflict c m g
             \<in> set (conflict_reports (unified_columns od s t)
                      (map (\<lambda>c. (c, f)) (columns_seen dir f s t)))"
      using scan_file_reported by blast
    then have "Conflict c m g
             \<in> set (conflict_reports (unified_columns od s t) (seen_pairs dir (f # files) s t))"
      by (simp add: seen_pairs_simps conflict_reports_pair_append)
    then show ?thesis by blast
  next
    assume "Conflict c m g \<in> set (snd (scan dir (fst (scan_file dir od f)) files))"
    then obtain s t where "Conflict c m g
             \<in> set (conflict_reports (unified_columns (fst (scan_file dir od f)) s t)
                      (seen_pairs dir files s t))"
      using Cons.IH by blast
    then have "Conflict c m g
             \<in> set (conflict_reports (unified_columns od s t) (seen_pairs dir (f # files) s t))"
      by (simp add: seen_pairs_simps conflict_reports_pair_append scan_file_first_seen)
    then show ?thesis by blast
  qed
qed

text \<open>
  The column kept for a name is the first one seen with it, and a later column of that
  name with another triple is reported against it.
\<close>

lemma find_first_seen:
  "find (\<lambda>x. name x = n) (first_seen cols xs) = find (\<lambda>x. name x = n) (cols @ xs)"
proof (induction xs arbitrary: cols)
  case Nil
  show ?case by simp
next
  case (Cons c cs)
  show ?case
  proof (cases "name c \<in> set (map name cols)")
    case False
    then show ?thesis using Cons.IH [of "cols @ [c]"] by simp
  next
    case True
    show ?thesis
    proof (cases "find (\<lambda>x. name x = n) cols")
      case None
      then have "n \<notin> set (map name cols)" using find_name_Some [of n cols] by auto
      with True have "name c \<noteq> n" by auto
      then show ?thesis using True None Cons.IH [of cols] by (simp add: find_append)
    next
      case (Some m)
      then show ?thesis using True Cons.IH [of cols] by (simp add: find_append)
    qed
  qed
qed

lemma conflict_reported:
  "(c, f) \<in> set ps \<Longrightarrow> find (\<lambda>x. name x = name c) (cols @ map fst ps) = Some m
   \<Longrightarrow> triple c \<noteq> triple m \<Longrightarrow> Conflict c m f \<in> set (conflict_reports cols ps)"
proof (induction ps arbitrary: cols)
  case Nil
  then show ?case by simp
next
  case (Cons p rest)
  obtain c' f' where p: "p = (c', f')" by (cases p)
  show ?case
  proof (cases "find (\<lambda>x. name x = name c') cols")
    case None
    show ?thesis
    proof (cases "(c, f) = (c', f')")
      case True
      with Cons.prems None p show ?thesis by (simp add: find_append)
    next
      case False
      with Cons.prems p have "(c, f) \<in> set rest" by auto
      moreover from Cons.prems p
      have "find (\<lambda>x. name x = name c) ((cols @ [c']) @ map fst rest) = Some m" by simp
      ultimately have "Conflict c m f \<in> set (conflict_reports (cols @ [c']) rest)"
        using Cons.prems by (intro Cons.IH)
      then show ?thesis using None p by simp
    qed
  next
    case (Some e)
    show ?thesis
    proof (cases "(c, f) = (c', f')")
      case True
      with Cons.prems Some p show ?thesis by (simp add: find_append)
    next
      case False
      with Cons.prems p have in_rest: "(c, f) \<in> set rest" by auto
      have "find (\<lambda>x. name x = name c) (cols @ map fst rest) = Some m"
      proof (cases "find (\<lambda>x. name x = name c) cols")
        case None
        then have "name c \<notin> set (map name cols)" using find_name_Some [of "name c" cols] by auto
        moreover from Some have "name c' \<in> set (map name cols)" by (rule find_name_in)
        ultimately have "name c' \<noteq> name c" by auto
        then show ?thesis using Cons.prems p None by (simp add: find_append)
      next
        case (Some x)
        then show ?thesis using Cons.prems p by (simp add: find_append)
      qed
      with in_rest have "Conflict c m f \<in> set (conflict_reports cols rest)"
        using Cons.prems by (intro Cons.IH)
      then show ?thesis using Some p by simp
    qed
  qed
qed

lemma unified_columns_Nil: "unified_columns [] s t = []"
  by (simp add: unified_columns_def)

lemma seen_pairs_two:
  "seen_pairs dir [fa, fb] s t
     = map (\<lambda>c. (c, fa)) (columns_seen dir fa s t) @ map (\<lambda>c. (c, fb)) (columns_seen dir fb s t)"
  by (simp add: seen_pairs_simps)

lemma conflict_two_files:
  assumes a: "a \<in> set (columns_seen dir fa s t)" and b: "b \<in> set (columns_seen dir fb s t)"
    and n: "name a = name b" and t: "triple a \<noteq> triple b"
  shows "\<exists>m. find (\<lambda>x. name x = name a) (columns_seen dir fa s t) = Some m
          \<and> find (\<lambda>x. name x = name a) (unified_columns (fst (scan dir [] [fa, fb])) s t) = Some m
          \<and> (Conflict a m fa \<in> set (snd (scan dir [] [fa, fb]))
             \<or> Conflict b m fb \<in> set (snd (scan dir [] [fa, fb])))"
proof -
  let ?A = "columns_seen dir fa s t" and ?B = "columns_seen dir fb s t"
  let ?ps = "seen_pairs dir [fa, fb] s t"
  from a have "name a \<in> set (map name ?A)" by simp
  then obtain m where m: "find (\<lambda>x. name x = name a) ?A = Some m"
    using find_name_Some by blast
  have fst: "map fst ?ps = ?A @ ?B"
    by (simp add: seen_pairs_two map_fst_pair)
  have f: "find (\<lambda>x. name x = name a) ([] @ map fst ?ps) = Some m"
    using m by (simp add: fst find_append)
  have u: "find (\<lambda>x. name x = name a) (unified_columns (fst (scan dir [] [fa, fb])) s t) = Some m"
    using f by (simp add: scan_first_seen unified_columns_Nil find_first_seen del: scan.simps)
  have sub: "set (conflict_reports [] ?ps) \<subseteq> set (snd (scan dir [] [fa, fb]))"
    using scan_reports [of "[]" s t dir "[fa, fb]"] by (simp add: unified_columns_Nil del: scan.simps)
  have ina: "(a, fa) \<in> set ?ps" using a by (auto simp: seen_pairs_two)
  have inb: "(b, fb) \<in> set ?ps" using b by (auto simp: seen_pairs_two)
  from t have "triple a \<noteq> triple m \<or> triple b \<noteq> triple m" by auto
  then have "Conflict a m fa \<in> set (conflict_reports [] ?ps)
             \<or> Conflict b m fb \<in> set (conflict_reports [] ?ps)"
  proof
    assume "triple a \<noteq> triple m"
    with ina f have "Conflict a m fa \<in> set (conflict_reports [] ?ps)"
      by (intro conflict_reported)
    then show ?thesis by simp
  next
    assume "triple b \<noteq> triple m"
    moreover from f n have "find (\<lambda>x. name x = name b) ([] @ map fst ?ps) = Some m" by simp
    ultimately have "Conflict b m fb \<in> set (conflict_reports [] ?ps)"
      using inb by (intro conflict_reported)
    then show ?thesis by simp
  qed
  with sub have "Conflict a m fa \<in> set (snd (scan dir [] [fa, fb]))
             \<or> Conflict b m fb \<in> set (snd (scan dir [] [fa, fb]))" by blast
  with m u show ?thesis by blast
qed

lemma conflict_two_files_distinct:
  assumes a: "a \<in> set (columns_seen dir fa s t)" and b: "b \<in> set (columns_seen dir fb s t)"
    and n: "name a = name b" and t: "triple a \<noteq> triple b"
    and d: "distinct (map name (columns_seen dir fa s t))"
  shows "Conflict b a fb \<in> set (snd (scan dir [] [fa, fb]))
         \<and> find (\<lambda>x. name x = name a) (unified_columns (fst (scan dir [] [fa, fb])) s t) = Some a"
proof -
  let ?A = "columns_seen dir fa s t" and ?B = "columns_seen dir fb s t"
  let ?ps = "seen_pairs dir [fa, fb] s t"
  have m: "find (\<lambda>x. name x = name a) ?A = Some a"
    using d a by (rule find_distinct_name)
  have fst: "map fst ?ps = ?A @ ?B"
    by (simp add: seen_pairs_two map_fst_pair)
  have f: "find (\<lambda>x. name x = name a) ([] @ map fst ?ps) = Some a"
    using m by (simp add: fst find_append)
  have u: "find (\<lambda>x. name x = name a) (unified_columns (fst (scan dir [] [fa, fb])) s t) = Some a"
    using f by (simp add: scan_first_seen unified_columns_Nil find_first_seen del: scan.simps)
  have sub: "set (conflict_reports [] ?ps) \<subseteq> set (snd (scan dir [] [fa, fb]))"
    using scan_reports [of "[]" s t dir "[fa, fb]"] by (simp add: unified_columns_Nil del: scan.simps)
  have inb: "(b, fb) \<in> set ?ps" using b by (auto simp: seen_pairs_two)
  from f n have "find (\<lambda>x. name x = name b) ([] @ map fst ?ps) = Some a" by simp
  moreover from t have "triple b \<noteq> triple a" by auto
  ultimately have "Conflict b a fb \<in> set (conflict_reports [] ?ps)"
    using inb by (intro conflict_reported)
  with sub u show ?thesis by blast
qed

text \<open>
  Claim C2. A scanned column whose name is already in the unified entry leaves the entry
  as it is and raises nothing; it logs nothing when its type, nullability and collation
  are those of the existing column of that name, and logs one conflict (the column, the
  existing column, the file) when they differ. For every worklist and all catalogs, the
  unified columns of a (schema, table) pair after the scan are the first-seen fold of
  the columns seen for the pair, and the conflicts in the log of the scan are exactly the
  conflicts of that fold, over all pairs. When two files \<open>fa\<close> and \<open>fb\<close> show for
  one pair a column of the same name with different properties, then in both scan orders
  the definition kept is the first one of that name in the file scanned first, and a
  conflict against it is logged for one of the two columns. When moreover neither file
  shows a column name twice for the pair, scanning \<open>fa\<close> first keeps its column and
  logs the conflict of the column of \<open>fb\<close>, and scanning \<open>fb\<close> first keeps the column
  of \<open>fb\<close> and logs the conflict of the column of \<open>fa\<close>.
\<close>

theorem first_seen_wins:
  "(name column \<in> set (map name cols) \<longrightarrow>
      (\<exists>existing. find (\<lambda>c. name c = name column) cols = Some existing
         \<and> scan_column hyper_file cols column
           = Inr (cols, if triple column = triple existing then []
                        else [Conflict column existing hyper_file])))
   \<and> unified_columns (fst (scan dir [] files)) s t
       = first_seen [] (map fst (seen_pairs dir files s t))
   \<and> (Conflict c m f \<in> set (snd (scan dir [] files))
        \<longleftrightarrow> (\<exists>s' t'. Conflict c m f \<in> set (conflict_reports [] (seen_pairs dir files s' t'))))
   \<and> (a \<in> set (columns_seen dir fa s t) \<and> b \<in> set (columns_seen dir fb s t)
        \<and> name a = name b \<and> triple a \<noteq> triple b \<longrightarrow>
      (\<exists>first. find (\<lambda>x. name x = name a) (columns_seen dir fa s t) = Some first
          \<and> find (\<lambda>x. name x = name a) (unified_columns (fst (scan dir [] [fa, fb])) s t)
              = Some first
          \<and> (Conflict a first fa \<in> set (snd (scan dir [] [fa, fb]))
             \<or> Conflict b first fb \<in> set (snd (scan dir [] [fa, fb]))))
      \<and> (\<exists>first. find (\<lambda>x. name x = name a) (columns_seen dir fb s t) = Some first
          \<and> find (\<lambda>x. name x = name a) (unified_columns (fst (scan dir [] [fb, fa])) s t)
              = Some first
          \<and> (Conflict a first fa \<in> set (snd (scan dir [] [fb, fa]))
             \<or> Conflict b first fb \<in> set (snd (scan dir [] [fb, fa])))))
   \<and> (a \<in> set (columns_seen dir fa s t) \<and> b \<in> set (columns_seen dir fb s t)
        \<and> name a = name b \<and> triple a \<noteq> triple b
        \<and> distinct (map name (columns_seen dir fa s t))
        \<and> distinct (map name (columns_seen dir fb s t)) \<longrightarrow>
      Conflict b a fb \<in> set (snd (scan dir [] [fa, fb]))
      \<and> find (\<lambda>x. name x = name a) (unified_columns (fst (scan dir [] [fa, fb])) s t) = Some a
      \<and> Conflict a b fa \<in> set (snd (scan dir [] [fb, fa]))
      \<and> find (\<lambda>x. name x = name a) (unified_columns (fst (scan dir [] [fb, fa])) s t) = Some b)"
proof -
  have 1: "name column \<in> set (map name cols) \<longrightarrow>
      (\<exists>existing. find (\<lambda>c. name c = name column) cols = Some existing
         \<and> scan_column hyper_file cols column
           = Inr (cols, if triple column = triple existing then []
                        else [Conflict column existing hyper_file]))"
  proof
    assume "name column \<in> set (map name cols)"
    then obtain existing where "find (\<lambda>c. name c = name column) cols = Some existing"
      using find_name_Some by blast
    then show "\<exists>existing. find (\<lambda>c. name c = name column) cols = Some existing
         \<and> scan_column hyper_file cols column
           = Inr (cols, if triple column = triple existing then []
                        else [Conflict column existing hyper_file])"
      by (simp add: scan_column_existing)
  qed
  have 2: "unified_columns (fst (scan dir [] files)) s t
       = first_seen [] (map fst (seen_pairs dir files s t))"
    by (simp add: scan_first_seen unified_columns_Nil)
  have 3: "Conflict c m f \<in> set (snd (scan dir [] files))
        \<longleftrightarrow> (\<exists>s' t'. Conflict c m f \<in> set (conflict_reports [] (seen_pairs dir files s' t')))"
  proof
    assume "Conflict c m f \<in> set (snd (scan dir [] files))"
    then show "\<exists>s' t'. Conflict c m f \<in> set (conflict_reports [] (seen_pairs dir files s' t'))"
      using scan_reported [of c m f dir "[]" files] by (simp add: unified_columns_Nil)
  next
    assume "\<exists>s' t'. Conflict c m f \<in> set (conflict_reports [] (seen_pairs dir files s' t'))"
    then obtain s' t' where "Conflict c m f \<in> set (conflict_reports [] (seen_pairs dir files s' t'))"
      by blast
    then show "Conflict c m f \<in> set (snd (scan dir [] files))"
      using scan_reports [of "[]" s' t' dir files] by (auto simp: unified_columns_Nil)
  qed
  have 4: "a \<in> set (columns_seen dir fa s t) \<and> b \<in> set (columns_seen dir fb s t)
        \<and> name a = name b \<and> triple a \<noteq> triple b \<longrightarrow>
      (\<exists>first. find (\<lambda>x. name x = name a) (columns_seen dir fa s t) = Some first
          \<and> find (\<lambda>x. name x = name a) (unified_columns (fst (scan dir [] [fa, fb])) s t)
              = Some first
          \<and> (Conflict a first fa \<in> set (snd (scan dir [] [fa, fb]))
             \<or> Conflict b first fb \<in> set (snd (scan dir [] [fa, fb]))))
      \<and> (\<exists>first. find (\<lambda>x. name x = name a) (columns_seen dir fb s t) = Some first
          \<and> find (\<lambda>x. name x = name a) (unified_columns (fst (scan dir [] [fb, fa])) s t)
              = Some first
          \<and> (Conflict a first fa \<in> set (snd (scan dir [] [fb, fa]))
             \<or> Conflict b first fb \<in> set (snd (scan dir [] [fb, fa]))))"
  proof (intro impI conjI)
    assume h: "a \<in> set (columns_seen dir fa s t) \<and> b \<in> set (columns_seen dir fb s t)
        \<and> name a = name b \<and> triple a \<noteq> triple b"
    then show "\<exists>first. find (\<lambda>x. name x = name a) (columns_seen dir fa s t) = Some first
          \<and> find (\<lambda>x. name x = name a) (unified_columns (fst (scan dir [] [fa, fb])) s t)
              = Some first
          \<and> (Conflict a first fa \<in> set (snd (scan dir [] [fa, fb]))
             \<or> Conflict b first fb \<in> set (snd (scan dir [] [fa, fb])))"
      by (intro conflict_two_files) simp_all
    from h have hb: "b \<in> set (columns_seen dir fb s t)" "a \<in> set (columns_seen dir fa s t)"
      "name b = name a" "triple b \<noteq> triple a" by auto
    then have "\<exists>first. find (\<lambda>x. name x = name b) (columns_seen dir fb s t) = Some first
          \<and> find (\<lambda>x. name x = name b) (unified_columns (fst (scan dir [] [fb, fa])) s t)
              = Some first
          \<and> (Conflict b first fb \<in> set (snd (scan dir [] [fb, fa]))
             \<or> Conflict a first fa \<in> set (snd (scan dir [] [fb, fa])))"
      by (rule conflict_two_files)
    with h show "\<exists>first. find (\<lambda>x. name x = name a) (columns_seen dir fb s t) = Some first
          \<and> find (\<lambda>x. name x = name a) (unified_columns (fst (scan dir [] [fb, fa])) s t)
              = Some first
          \<and> (Conflict a first fa \<in> set (snd (scan dir [] [fb, fa]))
             \<or> Conflict b first fb \<in> set (snd (scan dir [] [fb, fa])))"
      by auto
  qed
  have 5: "a \<in> set (columns_seen dir fa s t) \<and> b \<in> set (columns_seen dir fb s t)
        \<and> name a = name b \<and> triple a \<noteq> triple b
        \<and> distinct (map name (columns_seen dir fa s t))
        \<and> distinct (map name (columns_seen dir fb s t)) \<longrightarrow>
      Conflict b a fb \<in> set (snd (scan dir [] [fa, fb]))
      \<and> find (\<lambda>x. name x = name a) (unified_columns (fst (scan dir [] [fa, fb])) s t) = Some a
      \<and> Conflict a b fa \<in> set (snd (scan dir [] [fb, fa]))
      \<and> find (\<lambda>x. name x = name a) (unified_columns (fst (scan dir [] [fb, fa])) s t) = Some b"
  proof
    assume h: "a \<in> set (columns_seen dir fa s t) \<and> b \<in> set (columns_seen dir fb s t)
        \<and> name a = name b \<and> triple a \<noteq> triple b
        \<and> distinct (map name (columns_seen dir fa s t))
        \<and> distinct (map name (columns_seen dir fb s t))"
    then have x: "Conflict b a fb \<in> set (snd (scan dir [] [fa, fb]))
         \<and> find (\<lambda>x. name x = name a) (unified_columns (fst (scan dir [] [fa, fb])) s t) = Some a"
      by (intro conflict_two_files_distinct) simp_all
    from h have hb: "b \<in> set (columns_seen dir fb s t)" "a \<in> set (columns_seen dir fa s t)"
      "name b = name a" "triple b \<noteq> triple a" "distinct (map name (columns_seen dir fb s t))"
      by auto
    then have "Conflict a b fa \<in> set (snd (scan dir [] [fb, fa]))
         \<and> find (\<lambda>x. name x = name b) (unified_columns (fst (scan dir [] [fb, fa])) s t) = Some b"
      by (rule conflict_two_files_distinct)
    with x h show "Conflict b a fb \<in> set (snd (scan dir [] [fa, fb]))
      \<and> find (\<lambda>x. name x = name a) (unified_columns (fst (scan dir [] [fa, fb])) s t) = Some a
      \<and> Conflict a b fa \<in> set (snd (scan dir [] [fb, fa]))
      \<and> find (\<lambda>x. name x = name a) (unified_columns (fst (scan dir [] [fb, fa])) s t) = Some b"
      by simp
  qed
  from 1 2 3 4 5 show ?thesis by (intro conjI)
qed

text \<open>
  The extracts \<^verbatim>\<open>a.hyper\<close> (amount: double) and \<^verbatim>\<open>b.hyper\<close> (amount: text), the
  table in the second schema of both, in both orders.
\<close>

theorem first_seen_wins_witness:
  "name amount_text \<in> set (map name [id_column, amount_double])
   \<and> scan_column ''b.hyper'' [id_column, amount_double] amount_text
       = Inr ([id_column, amount_double], [Conflict amount_text amount_double ''b.hyper''])
   \<and> columns_seen conflict_directory ''a.hyper'' ''Extract'' ''Extract'' = [id_column, amount_double]
   \<and> columns_seen conflict_directory ''b.hyper'' ''Extract'' ''Extract'' = [id_column, amount_text]
   \<and> first_seen [] (map fst (seen_pairs conflict_directory [''a.hyper'', ''b.hyper'']
                                ''Extract'' ''Extract''))
       = [id_column, amount_double]
   \<and> unified_columns (fst (scan conflict_directory [] [''a.hyper'', ''b.hyper'']))
        ''Extract'' ''Extract''
       = [id_column, amount_double]
   \<and> conflict_reports [] (seen_pairs conflict_directory [''a.hyper'', ''b.hyper'']
                             ''Extract'' ''Extract'')
       = [Conflict amount_text amount_double ''b.hyper'']
   \<and> Conflict amount_text amount_double ''b.hyper''
       \<in> set (snd (scan conflict_directory [] [''a.hyper'', ''b.hyper'']))
   \<and> find (\<lambda>x. name x = name amount_double)
        (unified_columns (fst (scan conflict_directory [] [''a.hyper'', ''b.hyper'']))
           ''Extract'' ''Extract'')
       = Some amount_double
   \<and> Conflict amount_double amount_text ''a.hyper''
       \<in> set (snd (scan conflict_directory [] [''b.hyper'', ''a.hyper'']))
   \<and> find (\<lambda>x. name x = name amount_double)
        (unified_columns (fst (scan conflict_directory [] [''b.hyper'', ''a.hyper'']))
           ''Extract'' ''Extract'')
       = Some amount_text"
proof -
  have a: "columns_seen conflict_directory ''a.hyper'' ''Extract'' ''Extract''
           = [id_column, amount_double]" by code_simp
  have b: "columns_seen conflict_directory ''b.hyper'' ''Extract'' ''Extract''
           = [id_column, amount_text]" by code_simp
  have r: "conflict_reports [] (seen_pairs conflict_directory [''a.hyper'', ''b.hyper'']
                             ''Extract'' ''Extract'')
       = [Conflict amount_text amount_double ''b.hyper'']" by code_simp
  have f: "first_seen [] (map fst (seen_pairs conflict_directory [''a.hyper'', ''b.hyper'']
                                ''Extract'' ''Extract''))
       = [id_column, amount_double]" by code_simp
  have m: "name amount_text \<in> set (map name [id_column, amount_double])"
    by (simp add: scenario_defs)
  have e: "find (\<lambda>c. name c = name amount_text) [id_column, amount_double] = Some amount_double"
    by (simp add: scenario_defs)
  have h: "amount_double \<in> set [id_column, amount_double]
      \<and> amount_text \<in> set [id_column, amount_text]
      \<and> name amount_double = name amount_text \<and> triple amount_double \<noteq> triple amount_text
      \<and> triple amount_text \<noteq> triple amount_double
      \<and> distinct (map name [id_column, amount_double])
      \<and> distinct (map name [id_column, amount_text])"
    by (simp add: scenario_defs triple_def)
  note T = first_seen_wins [where column = amount_text and cols = "[id_column, amount_double]"
      and hyper_file = "''b.hyper''" and dir = conflict_directory
      and files = "[''a.hyper'', ''b.hyper'']" and s = "''Extract''" and t = "''Extract''"
      and c = amount_text and m = amount_double and f = "''b.hyper''"
      and a = amount_double and fa = "''a.hyper''" and b = amount_text and fb = "''b.hyper''"]
  from T [THEN conjunct1] m e h
  have w1: "scan_column ''b.hyper'' [id_column, amount_double] amount_text
       = Inr ([id_column, amount_double], [Conflict amount_text amount_double ''b.hyper''])"
    by simp
  from T [THEN conjunct2, THEN conjunct1] f
  have w2: "unified_columns (fst (scan conflict_directory [] [''a.hyper'', ''b.hyper'']))
        ''Extract'' ''Extract''
       = [id_column, amount_double]"
    by (simp del: scan.simps)
  from T [THEN conjunct2, THEN conjunct2, THEN conjunct2, THEN conjunct2] h
  have w5: "Conflict amount_text amount_double ''b.hyper''
       \<in> set (snd (scan conflict_directory [] [''a.hyper'', ''b.hyper'']))
   \<and> find (\<lambda>x. name x = name amount_double)
        (unified_columns (fst (scan conflict_directory [] [''a.hyper'', ''b.hyper'']))
           ''Extract'' ''Extract'')
       = Some amount_double
   \<and> Conflict amount_double amount_text ''a.hyper''
       \<in> set (snd (scan conflict_directory [] [''b.hyper'', ''a.hyper'']))
   \<and> find (\<lambda>x. name x = name amount_double)
        (unified_columns (fst (scan conflict_directory [] [''b.hyper'', ''a.hyper'']))
           ''Extract'' ''Extract'')
       = Some amount_text"
    unfolding a b by (simp del: scan.simps)
  from m w1 a b f w2 r w5 show ?thesis by (intro conjI) (simp_all del: scan.simps)
qed

section \<open>Names and their escaped form\<close>

text \<open>
  The quoting of the API gives different names different escaped forms. With an escaped
  form that does so, the tests of lines 121, 154 and 157 on escaped names decide as the
  same tests on the names themselves.
\<close>

lemma doubled_quotes_inj:
  "concat (map (\<lambda>c. if c = CHR 0x22 then [CHR 0x22, CHR 0x22] else [c]) a)
     = concat (map (\<lambda>c. if c = CHR 0x22 then [CHR 0x22, CHR 0x22] else [c]) b)
   \<Longrightarrow> a = b"
proof (induction a arbitrary: b)
  case Nil
  then show ?case by (cases b) (auto split: if_splits)
next
  case (Cons x xs)
  show ?case
  proof (cases b)
    case Nil
    with Cons.prems show ?thesis by (auto split: if_splits)
  next
    case (Cons y ys)
    with Cons.prems have "x = y
        \<and> concat (map (\<lambda>c. if c = CHR 0x22 then [CHR 0x22, CHR 0x22] else [c]) xs)
          = concat (map (\<lambda>c. if c = CHR 0x22 then [CHR 0x22, CHR 0x22] else [c]) ys)"
      by (auto split: if_splits)
    with Cons.IH Cons show ?thesis by blast
  qed
qed

lemma quote_name_eq: "(quote_name a = quote_name b) = (a = b)"
  by (auto simp: quote_name_def dest: doubled_quotes_inj)

lemma quote_name_inj: "inj quote_name"
  by (rule injI) (simp add: quote_name_eq)

lemma length_less_one: "(length xs < 1) = (xs = [])"
  by (cases xs) simp_all

lemma escaped_filter_empty:
  "inj esc \<Longrightarrow> n \<noteq> []
   \<Longrightarrow> (length [column \<leftarrow> cols. Inr (esc (name column)) = escape_with esc n] < 1)
       = (n \<notin> set (map name cols))"
  by (auto simp: length_less_one filter_empty_conv escape_with_def inj_eq)

lemma add_source_file_column_with_inj:
  "inj esc \<Longrightarrow>
   add_source_file_column_with esc args cols
     = (if source_file_column_name args \<noteq> []
           \<and> source_file_column_name args \<notin> set (map name cols)
        then cols @ [source_file_column args] else cols)"
  using escaped_filter_empty [of esc "source_file_column_name args" cols]
  by (auto simp: add_source_file_column_with_def)

lemma add_source_file_column_raw:
  "add_source_file_column args cols
     = (if source_file_column_name args \<noteq> []
           \<and> source_file_column_name args \<notin> set (map name cols)
        then cols @ [source_file_column args] else cols)"
  unfolding add_source_file_column_def
  using quote_name_inj by (rule add_source_file_column_with_inj)

lemma select_item_with_inj:
  "inj esc \<Longrightarrow>
   select_item_with esc args (Some source_columns) column
     = (if source_file_column_name args = [] then Inl ValueError
        else Inr (if name column = source_file_column_name args then []
                  else if name column \<in> set (map name source_columns)
                  then '' '' @ esc (name column) @ '',''
                  else '' NULL as '' @ esc (name column) @ '',''))"
  by (auto simp: select_item_with_def escape_with_def inj_eq)

lemma select_item_raw:
  "select_item args (Some source_columns) column
     = (if source_file_column_name args = [] then Inl ValueError
        else Inr (if name column = source_file_column_name args then []
                  else if name column \<in> set (map name source_columns)
                  then '' '' @ quote_name (name column) @ '',''
                  else '' NULL as '' @ quote_name (name column) @ '',''))"
  unfolding select_item_def
  using quote_name_inj by (rule select_item_with_inj)




text \<open>
  The premise is needed. With an escaped form that folds the case, as the spec words
  \<^verbatim>\<open>escapeIdentifier\<close>, the scan takes \<^verbatim>\<open>source_file\<close> for a new column beside
  \<^verbatim>\<open>Source_File\<close>, since the names differ, while line 121 finds the configured
  \<^verbatim>\<open>source_file\<close> in \<^verbatim>\<open>Source_File\<close> and appends nothing, and the loop of line
  153 leaves \<^verbatim>\<open>Source_File\<close> out as the source file column.
\<close>

lemma normalized_name_differs:
  \<open>scan_column ''b.hyper'' [id_column, source_file_upper] source_file_text
     = Inr ([id_column, source_file_upper, source_file_text], [])
   \<and> name source_file_text \<notin> set (map name [id_column, source_file_upper])
   \<and> add_source_file_column_with normalized_name scenario_args [id_column, source_file_upper]
       = [id_column, source_file_upper]
   \<and> select_item_with normalized_name scenario_args (Some [id_column, source_file_upper])
        source_file_upper
       = Inr []\<close>
  by code_simp

section \<open>The synthesized query\<close>

text \<open>
  With a configured name that is not empty, no pass of the loop raises and the query is
  the items of the unified columns, then the item of lines 160 to 164 without its comma,
  then the table. With the empty name (\<^verbatim>\<open>-c ""\<close>) the first pass raises at
  \<^verbatim>\<open>THA.escape_name\<close>, line 170 logs it, and line 175 runs the query as it was left.
\<close>

lemma item_of_raw:
  "source_file_column_name args \<noteq> [] \<Longrightarrow>
   item_of args source_columns column
     = (if name column = source_file_column_name args then []
        else if name column \<in> set (map name source_columns)
        then '' '' @ quote_name (name column) @ '',''
        else '' NULL as '' @ quote_name (name column) @ '','')"
  by (simp add: item_of_def select_item_raw)

lemma select_item_item_of:
  "source_file_column_name args \<noteq> [] \<Longrightarrow>
   select_item args (Some source_columns) column = Inr (item_of args source_columns column)"
  by (simp add: item_of_def select_item_raw)

lemma select_items_enabled:
  "source_file_column_name args \<noteq> [] \<Longrightarrow>
   select_items args (Some source_columns) query columns
     = (query @ concat (map (item_of args source_columns) columns), None)"
  by (induction columns arbitrary: query) (simp_all add: select_item_item_of)

lemma select_items_disabled:
  "source_file_column_name args = [] \<Longrightarrow> columns \<noteq> [] \<Longrightarrow>
   select_items args (Some source_columns) query columns = (query, Some ValueError)"
  by (cases columns) (simp_all add: select_item_raw)

lemma source_file_item_enabled:
  "source_file_column_name args \<noteq> [] \<Longrightarrow>
   butlast (query @ source_file_item args hyper_file)
     = query @ '' ''
       @ (if hyper_file \<noteq> output_file args then [CHR 0x27] @ hyper_file @ [CHR 0x27]
          else quote_name (source_file_column_name args))
       @ '' as '' @ source_file_column_name args"
  by (simp add: source_file_item_def butlast_append)

lemma build_query_enabled:
  "source_file_column_name args \<noteq> [] \<Longrightarrow>
   build_query args hyper_file schema table columns (Some source_columns)
     = (''SELECT '' @ concat (map (item_of args source_columns) columns) @ '' ''
        @ (if hyper_file \<noteq> output_file args then [CHR 0x27] @ hyper_file @ [CHR 0x27]
           else quote_name (source_file_column_name args))
        @ '' as '' @ source_file_column_name args
        @ '' FROM '' @ quote_name schema @ ''.'' @ quote_name table, None)"
  using source_file_item_enabled
    [of args "''SELECT '' @ concat (map (item_of args source_columns) columns)" hyper_file]
  by (simp add: build_query_def select_items_enabled)

lemma build_query_disabled:
  "source_file_column_name args = [] \<Longrightarrow> columns \<noteq> [] \<Longrightarrow>
   build_query args hyper_file schema table columns (Some source_columns)
     = (''SELECT '', Some ValueError)"
  by (simp add: build_query_def select_items_disabled)

lemma move_file_present:
  "dir hyper_file = Some (Some catalog) \<Longrightarrow> map_of catalog schema = Some (Some ts)
   \<Longrightarrow> map_of ts table = Some source_definition
   \<Longrightarrow> move_file args dir schema table columns hyper_file
       = Connect hyper_file # Ingesting hyper_file
         # (case build_query args hyper_file schema table columns source_definition of
              (query, Some e) \<Rightarrow> [Query_problem table hyper_file, Execute hyper_file query]
            | (query, None) \<Rightarrow> [Execute hyper_file query])"
  by (simp add: move_file_def)

lemma move_file_enabled:
  "source_file_column_name args \<noteq> [] \<Longrightarrow>
   dir hyper_file = Some (Some catalog) \<Longrightarrow> map_of catalog schema = Some (Some ts)
   \<Longrightarrow> map_of ts table = Some (Some source_columns)
   \<Longrightarrow> move_file args dir schema table columns hyper_file
       = [Connect hyper_file, Ingesting hyper_file,
          Execute hyper_file
            (''SELECT '' @ concat (map (item_of args source_columns) columns) @ '' ''
             @ (if hyper_file \<noteq> output_file args then [CHR 0x27] @ hyper_file @ [CHR 0x27]
                else quote_name (source_file_column_name args))
             @ '' as '' @ source_file_column_name args
             @ '' FROM '' @ quote_name schema @ ''.'' @ quote_name table)]"
  by (simp add: move_file_present build_query_enabled)

lemma move_file_disabled:
  "source_file_column_name args = [] \<Longrightarrow> columns \<noteq> [] \<Longrightarrow>
   dir hyper_file = Some (Some catalog) \<Longrightarrow> map_of catalog schema = Some (Some ts)
   \<Longrightarrow> map_of ts table = Some (Some source_columns)
   \<Longrightarrow> move_file args dir schema table columns hyper_file
       = [Connect hyper_file, Ingesting hyper_file, Query_problem table hyper_file,
          Execute hyper_file ''SELECT '']"
  by (simp add: move_file_present build_query_disabled)

lemma item_of_null:
  "source_file_column_name args \<noteq> [] \<Longrightarrow> name column \<notin> set (map name source_columns)
   \<Longrightarrow> name column \<noteq> source_file_column_name args
   \<Longrightarrow> item_of args source_columns (column\<lparr>type := ty\<rparr>)
       = '' NULL as '' @ quote_name (name column) @ '',''"
  by (simp add: item_of_raw)

text \<open>
  Claim C6, amended. With the source file column enabled, for a unified column that is
  not the source file column and that the source table does not have, the query that is
  handed to the engine holds \<^verbatim>\<open>NULL as\<close> followed by the escaped column name at the
  place of the column: the placeholder names no type, and the whole query is the same
  text whatever type the column declares.
\<close>

theorem null_placeholder_untyped:
  "source_file_column_name args \<noteq> []
   \<and> dir hyper_file = Some (Some catalog) \<and> map_of catalog schema = Some (Some ts)
   \<and> map_of ts table = Some (Some source_columns)
   \<and> name column \<notin> set (map name source_columns)
   \<and> name column \<noteq> source_file_column_name args
   \<longrightarrow> select_item args (Some source_columns) column
         = Inr ('' NULL as '' @ quote_name (name column) @ '','')
       \<and> move_file args dir schema table (before @ column # after) hyper_file
           = [Connect hyper_file, Ingesting hyper_file,
              Execute hyper_file
                (''SELECT '' @ concat (map (item_of args source_columns) before)
                 @ '' NULL as '' @ quote_name (name column) @ '',''
                 @ concat (map (item_of args source_columns) after) @ '' ''
                 @ (if hyper_file \<noteq> output_file args then [CHR 0x27] @ hyper_file @ [CHR 0x27]
                    else quote_name (source_file_column_name args))
                 @ '' as '' @ source_file_column_name args
                 @ '' FROM '' @ quote_name schema @ ''.'' @ quote_name table)]
       \<and> move_file args dir schema table (before @ column\<lparr>type := ty\<rparr> # after) hyper_file
           = move_file args dir schema table (before @ column # after) hyper_file"
proof (intro impI conjI)
  assume h: "source_file_column_name args \<noteq> []
   \<and> dir hyper_file = Some (Some catalog) \<and> map_of catalog schema = Some (Some ts)
   \<and> map_of ts table = Some (Some source_columns)
   \<and> name column \<notin> set (map name source_columns)
   \<and> name column \<noteq> source_file_column_name args"
  then have n: "\<And>ty. item_of args source_columns (column\<lparr>type := ty\<rparr>)
       = '' NULL as '' @ quote_name (name column) @ '',''"
    by (simp add: item_of_null)
  from n [of "type column"]
  have n0: "item_of args source_columns column = '' NULL as '' @ quote_name (name column) @ '',''"
    by simp
  from h show "select_item args (Some source_columns) column
         = Inr ('' NULL as '' @ quote_name (name column) @ '','')"
    using n0 by (simp add: select_item_item_of)
  from h have m: "\<And>columns. move_file args dir schema table columns hyper_file
       = [Connect hyper_file, Ingesting hyper_file,
          Execute hyper_file
            (''SELECT '' @ concat (map (item_of args source_columns) columns) @ '' ''
             @ (if hyper_file \<noteq> output_file args then [CHR 0x27] @ hyper_file @ [CHR 0x27]
                else quote_name (source_file_column_name args))
             @ '' as '' @ source_file_column_name args
             @ '' FROM '' @ quote_name schema @ ''.'' @ quote_name table)]"
    using move_file_enabled [of args dir hyper_file catalog schema ts table source_columns]
    by simp
  show "move_file args dir schema table (before @ column # after) hyper_file
           = [Connect hyper_file, Ingesting hyper_file,
              Execute hyper_file
                (''SELECT '' @ concat (map (item_of args source_columns) before)
                 @ '' NULL as '' @ quote_name (name column) @ '',''
                 @ concat (map (item_of args source_columns) after) @ '' ''
                 @ (if hyper_file \<noteq> output_file args then [CHR 0x27] @ hyper_file @ [CHR 0x27]
                    else quote_name (source_file_column_name args))
                 @ '' as '' @ source_file_column_name args
                 @ '' FROM '' @ quote_name schema @ ''.'' @ quote_name table)]"
    by (simp add: m n0)
  show "move_file args dir schema table (before @ column\<lparr>type := ty\<rparr> # after) hyper_file
           = move_file args dir schema table (before @ column # after) hyper_file"
    by (simp add: m n n0)
qed

text \<open>The column \<^verbatim>\<open>vat\<close> for a source table with \<^verbatim>\<open>id\<close> and \<^verbatim>\<open>amount\<close>.\<close>

theorem null_placeholder_untyped_witness:
  \<open>source_file_column_name scenario_args \<noteq> []
   \<and> name vat_double \<notin> set (map name [id_column, amount_double])
   \<and> name vat_double \<noteq> source_file_column_name scenario_args
   \<and> select_item scenario_args (Some [id_column, amount_double]) vat_double
       = Inr '' NULL as "vat",''
   \<and> move_file scenario_args scenario_directory ''public'' ''sales''
        ([id_column, amount_double] @ vat_double # [source_file_text]) ''sales_us.hyper''
       = [Connect ''sales_us.hyper'', Ingesting ''sales_us.hyper'',
          Execute ''sales_us.hyper''
            ''SELECT  "id", "amount", NULL as "vat", 'sales_us.hyper' as source_file FROM "public"."sales"'']
   \<and> move_file scenario_args scenario_directory ''public'' ''sales''
        ([id_column, amount_double] @ vat_double\<lparr>type := Sql_text\<rparr> # [source_file_text])
        ''sales_us.hyper''
       = move_file scenario_args scenario_directory ''public'' ''sales''
           ([id_column, amount_double] @ vat_double # [source_file_text]) ''sales_us.hyper''\<close>
proof -
  have h: "source_file_column_name scenario_args \<noteq> []
     \<and> scenario_directory ''sales_us.hyper''
         = Some (Some [(''public'', Some [(''sales'', Some [id_column, amount_double])])])
     \<and> map_of [(''public'', Some [(''sales'', Some [id_column, amount_double])])] ''public''
         = Some (Some [(''sales'', Some [id_column, amount_double])])
     \<and> map_of [(''sales'', Some [id_column, amount_double])] ''sales''
         = Some (Some [id_column, amount_double])
     \<and> name vat_double \<notin> set (map name [id_column, amount_double])
     \<and> name vat_double \<noteq> source_file_column_name scenario_args"
    by (simp add: scenario_defs)
  have q: \<open>''SELECT '' @ concat (map (item_of scenario_args [id_column, amount_double])
                                    [id_column, amount_double])
           @ '' NULL as '' @ quote_name (name vat_double) @ '',''
           @ concat (map (item_of scenario_args [id_column, amount_double]) [source_file_text])
           @ '' ''
           @ (if ''sales_us.hyper'' \<noteq> output_file scenario_args
              then [CHR 0x27] @ ''sales_us.hyper'' @ [CHR 0x27]
              else quote_name (source_file_column_name scenario_args))
           @ '' as '' @ source_file_column_name scenario_args
           @ '' FROM '' @ quote_name ''public'' @ ''.'' @ quote_name ''sales''
         = ''SELECT  "id", "amount", NULL as "vat", '' @ [CHR 0x27] @ ''sales_us.hyper''
           @ [CHR 0x27] @ '' as source_file FROM "public"."sales"''\<close>
    by code_simp
  have v: \<open>'' NULL as '' @ quote_name (name vat_double) @ '','' = '' NULL as "vat",''\<close>
    by code_simp
  from null_placeholder_untyped
    [of scenario_args scenario_directory "''sales_us.hyper''"
      "[(''public'', Some [(''sales'', Some [id_column, amount_double])])]" "''public''"
      "[(''sales'', Some [id_column, amount_double])]" "''sales''" "[id_column, amount_double]"
      vat_double "[id_column, amount_double]" "[source_file_text]" Sql_text] h
  show ?thesis unfolding q v by simp
qed

text \<open>
  Claim C6 fails as stated: \<^verbatim>\<open>vat\<close> declared double and \<^verbatim>\<open>vat\<close> declared text get the
  same query, whose placeholder names no type.
\<close>

theorem null_placeholder_counterexample:
  \<open>type vat_double = Sql_double
   \<and> move_file scenario_args scenario_directory ''public'' ''sales''
        [id_column, amount_double, vat_double, source_file_text] ''sales_us.hyper''
       = [Connect ''sales_us.hyper'', Ingesting ''sales_us.hyper'',
          Execute ''sales_us.hyper''
            ''SELECT  "id", "amount", NULL as "vat", 'sales_us.hyper' as source_file FROM "public"."sales"'']
   \<and> move_file scenario_args scenario_directory ''public'' ''sales''
        [id_column, amount_double, vat_double\<lparr>type := Sql_text\<rparr>, source_file_text]
        ''sales_us.hyper''
       = [Connect ''sales_us.hyper'', Ingesting ''sales_us.hyper'',
          Execute ''sales_us.hyper''
            ''SELECT  "id", "amount", NULL as "vat", 'sales_us.hyper' as source_file FROM "public"."sales"'']\<close>
  by code_simp

text \<open>
  The output columns of the query against the columns of the table definition. An item
  is appended for every column but the source file column; there are as many output
  columns as unified columns, and they are in the order of the table definition when the
  source file column is the one line 122 appended.
\<close>

lemma item_of_empty:
  "source_file_column_name args \<noteq> [] \<Longrightarrow>
   (item_of args source_columns column = []) = (name column = source_file_column_name args)"
  by (simp add: item_of_raw)

lemma source_file_item_empty:
  "(source_file_item args hyper_file = []) = (length (source_file_column_name args) = 0)"
  by (simp add: source_file_item_def)

lemma items_selected_names:
  "source_file_column_name args \<noteq> [] \<Longrightarrow>
   length [item \<leftarrow> map (item_of args source_columns) columns @ [source_file_item args hyper_file].
             item \<noteq> []]
     = length (selected_names args columns)"
  by (induction columns)
     (simp_all add: selected_names_def item_of_empty source_file_item_empty quote_name_eq)

lemma selected_names_filter:
  "selected_names args columns =
     [n \<leftarrow> map name columns. n \<noteq> source_file_column_name args]
     @ (if source_file_column_name args \<noteq> [] then [source_file_column_name args] else [])"
  by (induction columns) (simp_all add: selected_names_def quote_name_eq)

lemma filter_absent: "n \<notin> set xs \<Longrightarrow> [x \<leftarrow> xs. x \<noteq> n] = xs"
  by (induction xs) auto

lemma length_filter_distinct:
  "distinct xs \<Longrightarrow> n \<in> set xs \<Longrightarrow> Suc (length [x \<leftarrow> xs. x \<noteq> n]) = length xs"
  by (induction xs) (auto simp: filter_absent)

lemma selected_names_last:
  "source_file_column_name args \<noteq> [] \<Longrightarrow> source_file_column_name args \<notin> set (map name cols)
   \<Longrightarrow> name c = source_file_column_name args
   \<Longrightarrow> selected_names args (cols @ [c]) = map name (cols @ [c])"
  by (simp add: selected_names_filter filter_absent)

lemma selected_names_length:
  "source_file_column_name args \<noteq> [] \<Longrightarrow> distinct (map name columns)
   \<Longrightarrow> source_file_column_name args \<in> set (map name columns)
   \<Longrightarrow> length (selected_names args columns) = length columns"
  using length_filter_distinct [of "map name columns" "source_file_column_name args"]
  by (simp add: selected_names_filter)

lemma names_table_definition_columns: "map name (table_definition_columns cols) = map name cols"
  by (simp add: table_definition_columns_def)

lemma selected_names_appended:
  "source_file_column_name args \<noteq> [] \<Longrightarrow> source_file_column_name args \<notin> set (map name cols)
   \<Longrightarrow> selected_names args (table_definition_columns (add_source_file_column args cols))
       = map name (table_definition_columns (add_source_file_column args cols))"
proof -
  assume 1: "source_file_column_name args \<noteq> []"
    and 2: "source_file_column_name args \<notin> set (map name cols)"
  have a: "add_source_file_column args cols = cols @ [source_file_column args]"
    using 1 2 by (simp add: add_source_file_column_raw)
  have "selected_names args (table_definition_columns (cols @ [source_file_column args]))
        = [n \<leftarrow> map name (cols @ [source_file_column args]). n \<noteq> source_file_column_name args]
          @ [source_file_column_name args]"
    using 1 by (simp only: selected_names_filter names_table_definition_columns) simp
  also have "\<dots> = map name (cols @ [source_file_column args])"
    using 2 by (simp add: filter_absent source_file_column_def)
  finally show ?thesis using a by (simp add: names_table_definition_columns)
qed

text \<open>A file without the schema or without the table is passed over with an info line.\<close>

lemma move_file_absent:
  "dir hyper_file = Some (Some catalog) \<Longrightarrow>
   map_of catalog schema = None
     \<or> (\<exists>ts. map_of catalog schema = Some (Some ts) \<and> map_of ts table = None)
   \<Longrightarrow> move_file args dir schema table columns hyper_file
       = [Connect hyper_file, Ingesting hyper_file, Table_absent hyper_file]"
  by (auto simp: move_file_def)

text \<open>
  Claim C3 at a run of the append mode. The earlier output \<^verbatim>\<open>union.hyper\<close> has the
  columns \<^verbatim>\<open>id\<close> and \<^verbatim>\<open>source_file\<close>, the file \<^verbatim>\<open>new.hyper\<close> the columns \<^verbatim>\<open>id\<close> and
  \<^verbatim>\<open>vat\<close>. The table is created with the columns \<^verbatim>\<open>id\<close>, \<^verbatim>\<open>source_file\<close>, \<^verbatim>\<open>vat\<close>,
  and both queries select \<^verbatim>\<open>id\<close>, \<^verbatim>\<open>vat\<close>, \<^verbatim>\<open>source_file\<close>, in that order: the
  output columns of the queries are not in the order of the table definition.
\<close>

theorem projection_order_append_mode:
  \<open>run append_args [''union.hyper'', ''new.hyper''] append_directory =
     [Connect ''union.hyper'', Processing ''union.hyper'', Closed ''union.hyper'',
      Connect ''new.hyper'', Processing ''new.hyper'', Closed ''new.hyper'',
      Create_schema ''public'',
      Create_table ''public'' ''sales''
        [id_column\<lparr>nullability := NULLABLE\<rparr>, source_file_text, vat_double],
      Connect ''union.hyper'', Ingesting ''union.hyper'',
      Execute ''union.hyper''
        ''SELECT  "id", NULL as "vat", "source_file" as source_file FROM "public"."sales"'',
      Connect ''new.hyper'', Ingesting ''new.hyper'',
      Execute ''new.hyper''
        ''SELECT  "id", "vat", 'new.hyper' as source_file FROM "public"."sales"'']
   \<and> map name [id_column\<lparr>nullability := NULLABLE\<rparr>, source_file_text, vat_double]
       = [''id'', ''source_file'', ''vat'']
   \<and> selected_names append_args [id_column\<lparr>nullability := NULLABLE\<rparr>, source_file_text, vat_double]
       = [''id'', ''vat'', ''source_file'']\<close>
  by code_simp

section \<open>The file name and the column name in the query text\<close>

text \<open>
  A string literal that is read gives back the text it was written from, every single
  quote of the value written twice. So the text after the opening quote of line 162 is
  read as the file name exactly when the name holds no single quote.
\<close>

lemma doubled_simps [simp]:
  "doubled [] = []"
  "doubled (c # v) = (if c = CHR 0x27 then [CHR 0x27, CHR 0x27] else [c]) @ doubled v"
  by (simp_all add: doubled_def)














text \<open>The query is made of its items.\<close>

lemma concat_filter_nonempty: "concat [x \<leftarrow> xs. x \<noteq> []] = concat xs"
  by (induction xs) auto

lemma build_query_select_list:
  "source_file_column_name args \<noteq> [] \<Longrightarrow>
   build_query args hyper_file schema table columns (Some source_columns)
     = (''SELECT '' @ butlast (concat (select_list args hyper_file source_columns columns))
        @ '' FROM '' @ quote_name schema @ ''.'' @ quote_name table, None)"
proof -
  assume e: "source_file_column_name args \<noteq> []"
  then have n: "source_file_item args hyper_file \<noteq> []"
    by (simp add: source_file_item_def)
  have "concat (select_list args hyper_file source_columns columns)
        = concat (map (item_of args source_columns) columns) @ source_file_item args hyper_file"
    unfolding select_list_def concat_filter_nonempty by simp
  then have "butlast (concat (select_list args hyper_file source_columns columns))
        = concat (map (item_of args source_columns) columns)
          @ butlast (source_file_item args hyper_file)"
    using n by (simp add: butlast_append)
  then show ?thesis using e n
    by (simp add: build_query_def select_items_enabled butlast_append)
qed




text \<open>
  Claim C5 at a run of the append mode and at a run over an earlier union. In append
  mode the table is created with the columns \<^verbatim>\<open>id\<close>, \<^verbatim>\<open>source_file\<close>, \<^verbatim>\<open>vat\<close>. The
  query for \<^verbatim>\<open>new.hyper\<close> selects \<^verbatim>\<open>id\<close>, \<^verbatim>\<open>vat\<close> and the literal
  \<^verbatim>\<open>'new.hyper'\<close>, in that order, and the query for the earlier output
  \<^verbatim>\<open>union.hyper\<close> selects \<^verbatim>\<open>id\<close>, a \<^verbatim>\<open>NULL\<close> and the recorded \<^verbatim>\<open>source_file\<close>.
  Paired by position with the columns of the table, as line 180 inserts the rows, the
  column \<^verbatim>\<open>source_file\<close> gets the value of \<^verbatim>\<open>vat\<close> or \<^verbatim>\<open>NULL\<close>, and the file name
  or the recorded value lands in the column \<^verbatim>\<open>vat\<close>. Without
  \<^verbatim>\<open>--preserve-output-file\<close> the same happens to \<^verbatim>\<open>x.hyper\<close>, whose table has the
  columns \<^verbatim>\<open>id\<close>, \<^verbatim>\<open>source_file\<close>, \<^verbatim>\<open>note\<close>: the column \<^verbatim>\<open>source_file\<close> gets the
  value of \<^verbatim>\<open>note\<close>.
\<close>

theorem provenance_value_misplaced:
  \<open>Create_table ''public'' ''sales''
      [id_column\<lparr>nullability := NULLABLE\<rparr>, source_file_text, vat_double]
     \<in> set (run append_args [''union.hyper'', ''new.hyper''] append_directory)
   \<and> Execute ''new.hyper''
        ''SELECT  "id", "vat", 'new.hyper' as source_file FROM "public"."sales"''
     \<in> set (run append_args [''union.hyper'', ''new.hyper''] append_directory)
   \<and> zip (map name [id_column\<lparr>nullability := NULLABLE\<rparr>, source_file_text, vat_double])
         (select_list append_args ''new.hyper'' [id_column, vat_double]
            [id_column\<lparr>nullability := NULLABLE\<rparr>, source_file_text, vat_double])
       = [(''id'', '' "id",''), (''source_file'', '' "vat",''),
          (''vat'', '' 'new.hyper' as source_file,'')]
   \<and> Execute ''union.hyper''
        ''SELECT  "id", NULL as "vat", "source_file" as source_file FROM "public"."sales"''
     \<in> set (run append_args [''union.hyper'', ''new.hyper''] append_directory)
   \<and> zip (map name [id_column\<lparr>nullability := NULLABLE\<rparr>, source_file_text, vat_double])
         (select_list append_args ''union.hyper'' [id_column, source_file_text]
            [id_column\<lparr>nullability := NULLABLE\<rparr>, source_file_text, vat_double])
       = [(''id'', '' "id",''), (''source_file'', '' NULL as "vat",''),
          (''vat'', '' "source_file" as source_file,'')]
   \<and> run scenario_args [''x.hyper''] earlier_union_directory
       = [Connect ''x.hyper'', Processing ''x.hyper'', Closed ''x.hyper'',
          Create_schema ''public'',
          Create_table ''public'' ''sales''
            [id_column\<lparr>nullability := NULLABLE\<rparr>, source_file_text, note_text],
          Connect ''x.hyper'', Ingesting ''x.hyper'',
          Execute ''x.hyper''
            ''SELECT  "id", "note", 'x.hyper' as source_file FROM "public"."sales"'']
   \<and> zip (map name [id_column\<lparr>nullability := NULLABLE\<rparr>, source_file_text, note_text])
         (select_list scenario_args ''x.hyper'' [id_column, source_file_text, note_text]
            [id_column\<lparr>nullability := NULLABLE\<rparr>, source_file_text, note_text])
       = [(''id'', '' "id",''), (''source_file'', '' "note",''),
          (''note'', '' 'x.hyper' as source_file,'')]\<close>
  by code_simp

end
